theory Spec2Isabelle
  imports Complex_Main
begin

section \<open>The arithmetic of C doubles\<close>

text \<open>
  The HMM engine computes with C doubles and relies on their special values: a missing
  emission is a NaN, the logarithm of zero is minus infinity, and a division by zero is
  not an error. A double is modelled as a real number or one of the three special values.
  Finite arithmetic is exact: rounding, overflow, underflow and the sign of zero are not
  modelled (every zero is the positive zero).
\<close>

datatype dbl = Fin real | PInf | NInf | NaN

fun dneg :: "dbl \<Rightarrow> dbl" where
  "dneg (Fin x) = Fin (- x)"
| "dneg PInf = NInf"
| "dneg NInf = PInf"
| "dneg NaN = NaN"

fun dadd :: "dbl \<Rightarrow> dbl \<Rightarrow> dbl" where
  "dadd (Fin x) (Fin y) = Fin (x + y)"
| "dadd (Fin x) PInf = PInf"
| "dadd (Fin x) NInf = NInf"
| "dadd PInf (Fin y) = PInf"
| "dadd PInf PInf = PInf"
| "dadd PInf NInf = NaN"
| "dadd NInf (Fin y) = NInf"
| "dadd NInf PInf = NaN"
| "dadd NInf NInf = NInf"
| "dadd NaN y = NaN"
| "dadd x NaN = NaN"

definition dsub :: "dbl \<Rightarrow> dbl \<Rightarrow> dbl" where
  "dsub x y = dadd x (dneg y)"

text \<open>The sign of a double: \<open>1\<close>, \<open>-1\<close>, or \<open>0\<close> for zero; NaN has none.\<close>

fun dsgn :: "dbl \<Rightarrow> int option" where
  "dsgn (Fin x) = Some (if 0 < x then 1 else if x < 0 then - 1 else 0)"
| "dsgn PInf = Some 1"
| "dsgn NInf = Some (- 1)"
| "dsgn NaN = None"

definition inf_of_sign :: "int \<Rightarrow> dbl" where
  "inf_of_sign s = (if 0 < s then PInf else if s < 0 then NInf else NaN)"

fun dmul :: "dbl \<Rightarrow> dbl \<Rightarrow> dbl" where
  "dmul (Fin x) (Fin y) = Fin (x * y)"
| "dmul NaN y = NaN"
| "dmul x NaN = NaN"
| "dmul x y = inf_of_sign (the (dsgn x) * the (dsgn y))"

text \<open>
  Division: a finite nonzero value over zero is an infinity, zero over zero and
  infinity over infinity are NaN, a finite value over an infinity is zero.
\<close>

fun ddiv :: "dbl \<Rightarrow> dbl \<Rightarrow> dbl" where
  "ddiv (Fin x) (Fin y) =
     (if y \<noteq> 0 then Fin (x / y) else if 0 < x then PInf else if x < 0 then NInf else NaN)"
| "ddiv NaN y = NaN"
| "ddiv x NaN = NaN"
| "ddiv (Fin x) y = Fin 0"
| "ddiv x (Fin y) = inf_of_sign (the (dsgn x) * (if y < 0 then - 1 else 1))"
| "ddiv x y = NaN"

text \<open>Comparisons: every comparison with a NaN is false.\<close>

fun dlt :: "dbl \<Rightarrow> dbl \<Rightarrow> bool" where
  "dlt (Fin x) (Fin y) = (x < y)"
| "dlt NaN y = False"
| "dlt x NaN = False"
| "dlt x PInf = (x \<noteq> PInf)"
| "dlt NInf y = (y \<noteq> NInf)"
| "dlt x y = False"

definition dgt :: "dbl \<Rightarrow> dbl \<Rightarrow> bool" where
  "dgt x y = dlt y x"

text \<open>The C test \<open>x != x\<close>, true of NaN only.\<close>

definition is_nan :: "dbl \<Rightarrow> bool" where
  "is_nan x = (x = NaN)"

fun dexp :: "dbl \<Rightarrow> dbl" where
  "dexp (Fin x) = Fin (exp x)"
| "dexp PInf = PInf"
| "dexp NInf = Fin 0"
| "dexp NaN = NaN"

fun dlog :: "dbl \<Rightarrow> dbl" where
  "dlog (Fin x) = (if 0 < x then Fin (ln x) else if x = 0 then NInf else NaN)"
| "dlog PInf = PInf"
| "dlog NInf = NaN"
| "dlog NaN = NaN"

fun dfabs :: "dbl \<Rightarrow> dbl" where
  "dfabs (Fin x) = Fin \<bar>x\<bar>"
| "dfabs PInf = PInf"
| "dfabs NInf = PInf"
| "dfabs NaN = NaN"

text \<open>The conversion of an \<open>int\<close> to a double.\<close>

definition of_i :: "int \<Rightarrow> dbl" where
  "of_i v = Fin (of_int v)"

section \<open>Arrays\<close>

text \<open>
  A C array is a function from indices to values, so that a cell is read and written
  with the index expression of the source. A pointer into an array, \<open>p + off\<close>, is
  the shifted view of it; \<open>unshift\<close> is the array once the callee has written
  through that pointer.
\<close>

type_synonym 'a arr = "nat \<Rightarrow> 'a"

definition shift :: "'a arr \<Rightarrow> nat \<Rightarrow> 'a arr" where
  "shift p off = (\<lambda>i. p (off + i))"

definition unshift :: "'a arr \<Rightarrow> nat \<Rightarrow> 'a arr \<Rightarrow> 'a arr" where
  "unshift p off q = (\<lambda>i. if i < off then p i else q (i - off))"

text \<open>\<open>memcpy(dst + d, src + s, len * sizeof(double))\<close>\<close>

definition memcpy :: "'a arr \<Rightarrow> nat \<Rightarrow> 'a arr \<Rightarrow> nat \<Rightarrow> nat \<Rightarrow> 'a arr" where
  "memcpy dst d src s len = (\<lambda>i. if d \<le> i \<and> i < d + len then src (s + (i - d)) else dst i)"

text \<open>An array literal; the cells past its end are never read by the code.\<close>

definition arr_of :: "'a \<Rightarrow> 'a list \<Rightarrow> 'a arr" where
  "arr_of d xs = (\<lambda>i. if i < length xs then xs ! i else d)"

datatype error = MemoryError | NegativeP | OutOfBounds | InvalidQ | InvalidInit | CannotComplete

text \<open>
  \<open>pow\<close> of the C library: a positive base is raised with the real power; the
  other cases follow the C standard's table (\<open>pow(x, 0) = 1\<close> for every \<open>x\<close>,
  \<open>pow(0, y)\<close> is 0 or infinite with the sign of \<open>y\<close>, a negative base needs an
  integer exponent).
\<close>

fun dpow :: "dbl \<Rightarrow> dbl \<Rightarrow> dbl" where
  "dpow x (Fin y) =
     (if y = 0 then Fin 1
      else case x of
             Fin b \<Rightarrow> (if 0 < b then Fin (b powr y)
                       else if b = 0 then (if 0 < y then Fin 0 else PInf)
                       else if y = of_int \<lfloor>y\<rfloor> then Fin (b powi \<lfloor>y\<rfloor>) else NaN)
           | PInf \<Rightarrow> (if 0 < y then PInf else Fin 0)
           | NInf \<Rightarrow> (if 0 < y then (if y = of_int \<lfloor>y\<rfloor> \<and> odd \<lfloor>y\<rfloor> then NInf else PInf) else Fin 0)
           | NaN \<Rightarrow> NaN)"
| "dpow x PInf =
     (case x of
        Fin b \<Rightarrow> (if \<bar>b\<bar> < 1 then Fin 0 else if \<bar>b\<bar> = 1 then Fin 1 else PInf)
      | NaN \<Rightarrow> NaN
      | _ \<Rightarrow> PInf)"
| "dpow x NInf =
     (case x of
        Fin b \<Rightarrow> (if \<bar>b\<bar> < 1 then PInf else if \<bar>b\<bar> = 1 then Fin 1 else Fin 0)
      | NaN \<Rightarrow> NaN
      | _ \<Rightarrow> Fin 0)"
| "dpow x NaN = (if x = Fin 1 then Fin 1 else NaN)"

text \<open>
  The root finder of the trainer doubles and halves \<open>p0\<close>, a power of two, until a
  sign changes, and relies on the range of doubles to stop: past the largest double
  the product is infinite, below the smallest the quotient is zero. These two
  operations are exact on powers of two and carry that range.
\<close>

definition DBL_MAX :: real where
  "DBL_MAX = (2 - 1 / 2 ^ 52) * 2 ^ 1023"

definition DBL_TRUE_MIN :: real where
  "DBL_TRUE_MIN = 1 / 2 ^ 1074"

fun twice :: "dbl \<Rightarrow> dbl" where
  "twice (Fin x) = (if DBL_MAX < 2 * x then PInf else if 2 * x < - DBL_MAX then NInf else Fin (2 * x))"
| "twice x = x"

fun half :: "dbl \<Rightarrow> dbl" where
  "half (Fin x) = (if \<bar>x / 2\<bar> < DBL_TRUE_MIN then Fin 0 else Fin (x / 2))"
| "half x = x"

text \<open>
  The accumulation \<open>s = 0.0; for (j = 0; j < m; j++) s += f(j)\<close>, the shape of
  every sum of the engine.
\<close>

definition dsum :: "nat \<Rightarrow> (nat \<Rightarrow> dbl) \<Rightarrow> dbl" where
  "dsum m f = fold (\<lambda>j s. dadd s (f j)) [0..<m] (Fin 0)"

text \<open>The real value of a finite double.\<close>

fun re :: "dbl \<Rightarrow> real" where
  "re (Fin x) = x"
| "re _ = 0"

section \<open>The Viterbi decoder\<close>

text \<open>
  \<open>viterbi\<close> of the HMM library, in log space. \<open>viterbi_col\<close> is the inner loop over
  \<open>i\<close> that finds the best predecessor of state \<open>j\<close>; \<open>viterbi_step\<close> is one
  position \<open>k\<close>, starting with the swap of \<open>oldmax\<close> and \<open>newmax\<close>.
\<close>

definition viterbi_col :: "nat \<Rightarrow> dbl arr \<Rightarrow> dbl arr \<Rightarrow> nat \<Rightarrow> dbl \<times> nat" where
  "viterbi_col m log_Q oldmax j =
     fold (\<lambda>i (thismax, arg).
             let tmp = dadd (oldmax i) (log_Q (i + j * m))
             in if dgt tmp thismax then (tmp, i) else (thismax, arg))
          [1..<m] (dadd (oldmax 0) (log_Q (0 + j * m)), 0)"

definition viterbi_step ::
  "nat \<Rightarrow> dbl arr \<Rightarrow> dbl arr \<Rightarrow> nat \<Rightarrow> dbl arr \<times> dbl arr \<times> nat arr \<Rightarrow> dbl arr \<times> dbl arr \<times> nat arr"
where
  "viterbi_step m log_Q log_p k s =
     (case s of (oldmax0, newmax0, argmax0) \<Rightarrow>
        let oldmax = newmax0; newmax1 = oldmax0;
            (newmax, argmax) =
              fold (\<lambda>j (newmax, argmax).
                      let (thismax, a) = viterbi_col m log_Q oldmax j
                      in (newmax(j := dadd thismax (log_p (j + k * m))), argmax(j + k * m := a)))
                   [0..<m] (newmax1, argmax0)
        in (oldmax, newmax, argmax))"

text \<open>The loop that picks the final state.\<close>

definition final_state :: "nat \<Rightarrow> dbl arr \<Rightarrow> nat" where
  "final_state m newmax = fold (\<lambda>j fs. if dgt (newmax j) (newmax 0) then j else fs) [1..<m] 0"

text \<open>
  The whole decoder. \<open>mem_ok\<close> tells whether \<open>argmax\<close> could be allocated; if not,
  every byte of \<open>path\<close> is set to \<open>0xFF\<close>. The scratch arrays start with unspecified
  contents, here NaN and 0; every cell is written before it is read. With \<open>n = 0\<close> the
  source writes \<open>path[n-1]\<close> out of bounds.
\<close>

definition viterbi ::
  "bool \<Rightarrow> nat \<Rightarrow> nat \<Rightarrow> dbl arr \<Rightarrow> dbl arr \<Rightarrow> dbl arr \<Rightarrow> nat arr \<Rightarrow> error + nat arr"
where
  "viterbi mem_ok m n log_Q log_i log_p path =
     (if \<not> mem_ok then Inr (\<lambda>k. if k < n then 4294967295 else path k)
      else if n = 0 then Inl OutOfBounds
      else
        let newmax0 = fold (\<lambda>j newmax. newmax(j := dadd (log_i (j + 0 * m)) (log_p (j + 0 * m))))
                        [0..<m] (\<lambda>_. NaN);
            (oldmax, newmax, argmax) =
               fold (viterbi_step m log_Q log_p) [1..<n] (\<lambda>_. NaN, newmax0, \<lambda>_. 0);
            path1 = path(n - 1 := final_state m newmax)
        in Inr (fold (\<lambda>k path. path(k := argmax (path (k + 1) + (k + 1) * m)))
                  (rev [0..<n - 1]) path1))"

text \<open>
  The index of the first maximum of \<open>v[0..m)\<close>, as the forward pass computes it for a
  row in log space: the running maximum is compared, not the first cell.
\<close>

definition argmax_first :: "nat \<Rightarrow> dbl arr \<Rightarrow> nat" where
  "argmax_first m v = fold (\<lambda>j w. if dgt (v j) (v w) then j else w) [1..<m] 0"

section \<open>The transition update of the trainer\<close>

text \<open>
  \<open>update_trans\<close>: for every state \<open>i\<close>, the sum of \<open>trans[i+j*m]\<close> over \<open>j\<close>,
  then every \<open>Q[i+j*m]\<close> is set to \<open>trans[i+j*m] / sum\<close>. There is no test on
  \<open>sum\<close>.
\<close>

definition row_sum :: "nat \<Rightarrow> dbl arr \<Rightarrow> nat \<Rightarrow> dbl" where
  "row_sum m tr i = fold (\<lambda>j sum. dadd sum (tr (i + j * m))) [0..<m] (Fin 0)"

definition update_row :: "nat \<Rightarrow> dbl arr \<Rightarrow> nat \<Rightarrow> dbl \<Rightarrow> dbl arr \<Rightarrow> dbl arr" where
  "update_row m tr i sm Q = fold (\<lambda>j Q. Q(i + j * m := ddiv (tr (i + j * m)) sm)) [0..<m] Q"

definition update_trans :: "nat \<Rightarrow> dbl arr \<Rightarrow> dbl arr \<Rightarrow> dbl arr" where
  "update_trans m Q tr = fold (\<lambda>i Q. update_row m tr i (row_sum m tr i) Q) [0..<m] Q"

section \<open>The forward pass\<close>

text \<open>\<open>memset(dst + d, 0, len * sizeof(double))\<close>\<close>

definition memset0 :: "dbl arr \<Rightarrow> nat \<Rightarrow> nat \<Rightarrow> dbl arr" where
  "memset0 dst d len = (\<lambda>i. if d \<le> i \<and> i < d + len then Fin 0 else dst i)"

text \<open>
  The one-step prediction: \<open>tmp\<close> is cleared and \<open>tmp[j] += a[i] * Q[i+j*m]\<close> runs
  over \<open>j\<close> and \<open>i\<close>.
\<close>

definition fwd_predict :: "nat \<Rightarrow> dbl arr \<Rightarrow> dbl arr \<Rightarrow> dbl arr \<Rightarrow> dbl arr" where
  "fwd_predict m Q a tmp =
     fold (\<lambda>j tmp. fold (\<lambda>i tmp. tmp(j := dadd (tmp j) (dmul (a i) (Q (i + j * m))))) [0..<m] tmp)
       [0..<m] (memset0 tmp 0 m)"

text \<open>The test for a missing emission: some cell of row \<open>k\<close> is NaN.\<close>

definition na_found :: "nat \<Rightarrow> dbl arr \<Rightarrow> nat \<Rightarrow> bool" where
  "na_found m prob k = list_ex (\<lambda>j. is_nan (prob (j + k * m))) [0..<m]"

text \<open>The index \<open>w\<close> of the largest emission of a row in log space.\<close>

definition max_emission :: "nat \<Rightarrow> dbl arr \<Rightarrow> nat \<Rightarrow> nat" where
  "max_emission m prob k =
     fold (\<lambda>j w. if dgt (prob (j + k * m)) (prob (w + k * m)) then j else w) [1..<m] 0"

text \<open>
  The two loops \<open>c += a[j] = tmp[j] * ...\<close>: for a row in log space, with the
  emissions relative to the largest one, and for a row in linear space.
\<close>

definition weigh_log ::
  "nat \<Rightarrow> dbl arr \<Rightarrow> dbl arr \<Rightarrow> nat \<Rightarrow> nat \<Rightarrow> dbl arr \<Rightarrow> dbl \<times> dbl arr" where
  "weigh_log m tmp prob k w a =
     fold (\<lambda>j (c, a).
             let v = dmul (tmp j) (dexp (dsub (prob (j + k * m)) (prob (w + k * m))))
             in (dadd c v, a(j := v)))
       [0..<m] (Fin 0, a)"

definition weigh_lin :: "nat \<Rightarrow> dbl arr \<Rightarrow> dbl arr \<Rightarrow> nat \<Rightarrow> dbl arr \<Rightarrow> dbl \<times> dbl arr" where
  "weigh_lin m tmp prob k a =
     fold (\<lambda>j (c, a). let v = dmul (tmp j) (prob (j + k * m)) in (dadd c v, a(j := v)))
       [0..<m] (Fin 0, a)"

definition normalize :: "nat \<Rightarrow> dbl \<Rightarrow> dbl arr \<Rightarrow> dbl arr" where
  "normalize m c a = fold (\<lambda>j a. a(j := ddiv (a j) c)) [0..<m] a"

text \<open>
  The second half of a position \<open>k\<close>: the prediction \<open>tmp\<close> is combined with the
  emissions of row \<open>k\<close>, on the state \<open>(a, prob, loglik)\<close>. The order of the source
  is kept: for a row in log space \<open>loglik += prob[w+k*m]\<close> is executed before the
  test on \<open>c\<close>.
\<close>

definition fwd_combine ::
  "nat \<Rightarrow> nat \<Rightarrow> dbl arr \<Rightarrow> dbl arr \<times> dbl arr \<times> dbl \<Rightarrow> dbl arr \<times> dbl arr \<times> dbl"
where
  "fwd_combine m k tmp s =
     (case s of (a0, prob, loglik) \<Rightarrow>
        if na_found m prob k
        then (memcpy a0 0 tmp 0 m, memcpy prob (k * m) tmp 0 m, loglik)
        else
          let (c, a, loglik1) =
                (if dlt (prob (0 + k * m)) (Fin 0)
                 then let w = max_emission m prob k;
                          (c, a) = weigh_log m tmp prob k w a0
                      in (c, a, dadd loglik (prob (w + k * m)))
                 else let (c, a) = weigh_lin m tmp prob k a0
                      in (c, a, loglik))
          in if \<not> dgt c (Fin 0)
             then (memcpy a 0 tmp 0 m, memcpy prob (k * m) tmp 0 m, loglik1)
             else let a' = normalize m c a
                  in (a', memcpy prob (k * m) a' 0 m, dadd loglik1 (dlog c)))"

text \<open>
  One position \<open>k\<close> of the forward pass, on the state \<open>(tmp, a, prob, loglik)\<close>:
  \<open>tmp\<close> is \<open>init\<close> at the first position and the prediction from the previous
  alphas afterwards.
\<close>

definition fwd_step ::
  "nat \<Rightarrow> dbl arr \<Rightarrow> dbl arr \<Rightarrow> nat \<Rightarrow> dbl arr \<times> dbl arr \<times> dbl arr \<times> dbl
     \<Rightarrow> dbl arr \<times> dbl arr \<times> dbl arr \<times> dbl"
where
  "fwd_step m Q init k s =
     (case s of (tmp0, a0, prob, loglik) \<Rightarrow>
        let tmp = (if k = 0 then memcpy tmp0 0 init 0 m else fwd_predict m Q a0 tmp0)
        in case fwd_combine m k tmp (a0, prob, loglik) of
             (a, prob', loglik') \<Rightarrow> (tmp, a, prob', loglik'))"

text \<open>
  \<open>fwd\<close> returns the log-likelihood and leaves the alphas in \<open>prob\<close>. The local
  arrays \<open>tmp\<close> and \<open>a\<close> start with unspecified contents (here NaN); their first
  \<open>m\<close> cells are written before they are read.
\<close>

definition fwd :: "nat \<Rightarrow> nat \<Rightarrow> dbl arr \<Rightarrow> dbl arr \<Rightarrow> dbl arr \<Rightarrow> dbl \<times> dbl arr" where
  "fwd m n Q init prob =
     (case fold (fwd_step m Q init) [0..<n] (\<lambda>_. NaN, \<lambda>_. NaN, prob, Fin 0) of
        (tmp, a, prob', loglik) \<Rightarrow> (loglik, prob'))"

section \<open>The backward pass\<close>

text \<open>
  The reverse kernel at position \<open>k\<close>: for every \<open>j\<close>, the cells \<open>R[j+i*m]\<close> are
  set to \<open>alpha[i+k*m] * Q[i+j*m]\<close> while \<open>x\<close> sums them, then every one is divided
  by \<open>x\<close>. There is no test on \<open>x\<close>.
\<close>

definition kernel_row :: "nat \<Rightarrow> dbl arr \<Rightarrow> dbl arr \<Rightarrow> nat \<Rightarrow> nat \<Rightarrow> dbl arr \<Rightarrow> dbl \<times> dbl arr" where
  "kernel_row m Q alpha k j R =
     fold (\<lambda>i (x, R). let v = dmul (alpha (i + k * m)) (Q (i + j * m)) in (dadd x v, R(j + i * m := v)))
       [0..<m] (Fin 0, R)"

definition kernel_div :: "nat \<Rightarrow> dbl arr \<Rightarrow> dbl arr \<Rightarrow> nat \<Rightarrow> nat \<Rightarrow> dbl arr \<Rightarrow> dbl arr" where
  "kernel_div m Q alpha k j R =
     (case kernel_row m Q alpha k j R of
        (x, R1) \<Rightarrow> fold (\<lambda>i R. R(j + i * m := ddiv (R (j + i * m)) x)) [0..<m] R1)"

definition reverse_kernel :: "nat \<Rightarrow> dbl arr \<Rightarrow> dbl arr \<Rightarrow> nat \<Rightarrow> dbl arr \<Rightarrow> dbl arr" where
  "reverse_kernel m Q alpha k R = fold (kernel_div m Q alpha k) [0..<m] R"

text \<open>The update of \<open>phi\<close> and \<open>T\<close> at position \<open>k\<close> with the reverse kernel.\<close>

definition smooth_cell ::
  "nat \<Rightarrow> nat \<Rightarrow> dbl arr \<Rightarrow> nat \<Rightarrow> nat \<Rightarrow> dbl arr \<times> dbl arr \<Rightarrow> dbl arr \<times> dbl arr" where
  "smooth_cell m k R j i s =
     (case s of (phi, T) \<Rightarrow>
        let x = dmul (phi (i + (k + 1) * m)) (R (i + j * m))
        in (phi(j + k * m := dadd (phi (j + k * m)) x), T(j + i * m := dadd (T (j + i * m)) x)))"

definition smooth :: "nat \<Rightarrow> nat \<Rightarrow> dbl arr \<Rightarrow> dbl arr \<times> dbl arr \<Rightarrow> dbl arr \<times> dbl arr" where
  "smooth m k R s = fold (\<lambda>j. fold (smooth_cell m k R j) [0..<m]) [0..<m] s"

definition bwd_step ::
  "nat \<Rightarrow> dbl arr \<Rightarrow> dbl arr \<Rightarrow> nat \<Rightarrow> dbl arr \<times> dbl arr \<times> dbl arr \<Rightarrow> dbl arr \<times> dbl arr \<times> dbl arr"
where
  "bwd_step m Q alpha k s =
     (case s of (R0, phi, T) \<Rightarrow>
        let R = reverse_kernel m Q alpha k R0
        in case smooth m k R (phi, T) of (phi', T') \<Rightarrow> (R, phi', T'))"

text \<open>
  \<open>bwd\<close> returns \<open>phi\<close> and \<open>T\<close>. The sizes are unsigned: with \<open>n = 0\<close> the
  source copies to \<open>phi + (n-1)*m\<close>, out of bounds. \<open>k\<close> runs from \<open>n-2\<close> down to 0.
\<close>

definition bwd ::
  "nat \<Rightarrow> nat \<Rightarrow> dbl arr \<Rightarrow> dbl arr \<Rightarrow> dbl arr \<Rightarrow> dbl arr \<Rightarrow> error + dbl arr \<times> dbl arr"
where
  "bwd m n Q alpha phi T =
     (if n = 0 then Inl OutOfBounds
      else
        let T0 = memset0 T 0 (m * m);
            phi0 = memset0 phi 0 (m * n);
            phi1 = memcpy phi0 ((n - 1) * m) alpha ((n - 1) * m) m
        in case fold (bwd_step m Q alpha) (rev [0..<n - 1]) (\<lambda>_. NaN, phi1, T0) of
             (R, phi', T') \<Rightarrow> Inr (phi', T'))"

section \<open>Forward-backward, one block and all blocks\<close>

text \<open>\<open>fwdb\<close> returns the log-likelihood, the alphas, \<open>phi\<close> and \<open>T\<close>.\<close>

definition fwdb ::
  "nat \<Rightarrow> nat \<Rightarrow> dbl arr \<Rightarrow> dbl arr \<Rightarrow> dbl arr \<Rightarrow> dbl arr \<Rightarrow> dbl arr
     \<Rightarrow> error + dbl \<times> dbl arr \<times> dbl arr \<times> dbl arr"
where
  "fwdb m n Q init prob phi T =
     (case fwd m n Q init prob of
        (loglik, alpha) \<Rightarrow>
          (case bwd m n Q alpha phi T of
             Inl e \<Rightarrow> Inl e
           | Inr (phi', T') \<Rightarrow> Inr (loglik, alpha, phi', T')))"

text \<open>
  The loop of \<open>block_fwdb\<close> over the blocks, on the state
  \<open>(offset, loglik, prob, phi, sumtrans, T)\<close>: the block at \<open>prob + offset\<close> and
  \<open>phi + offset\<close> is smoothed, its log-likelihood and its \<open>T\<close> are accumulated and
  the offset moves by \<open>m * size[i]\<close>.
\<close>

type_synonym block_state = "nat \<times> dbl \<times> dbl arr \<times> dbl arr \<times> dbl arr \<times> dbl arr"

definition add_trans :: "nat \<Rightarrow> dbl arr \<Rightarrow> dbl arr \<Rightarrow> dbl arr" where
  "add_trans m sumtrans T = fold (\<lambda>j st. st(j := dadd (st j) (T j))) [0..<m * m] sumtrans"

fun block_loop ::
  "nat \<Rightarrow> nat arr \<Rightarrow> dbl arr \<Rightarrow> dbl arr \<Rightarrow> nat list \<Rightarrow> block_state \<Rightarrow> error + block_state"
where
  "block_loop m sizes Q init [] s = Inr s"
| "block_loop m sizes Q init (i # bs) s =
     (case s of (offset, loglik, prob, phi, sumtrans, T) \<Rightarrow>
        (case fwdb m (sizes i) Q init (shift prob offset) (shift phi offset) T of
           Inl e \<Rightarrow> Inl e
         | Inr (l, alpha, phi', T') \<Rightarrow>
             block_loop m sizes Q init bs
               (offset + m * sizes i, dadd loglik l, unshift prob offset alpha,
                unshift phi offset phi', add_trans m sumtrans T', T')))"

text \<open>
  \<open>block_fwdb\<close> returns the log-likelihood, the alphas, \<open>phi\<close> and the summed
  transitions. \<open>mem_ok\<close> tells whether the scratch matrix \<open>T\<close> could be allocated;
  its contents are unspecified (here NaN) and \<open>bwd\<close> clears it.
\<close>

definition block_fwdb ::
  "bool \<Rightarrow> nat \<Rightarrow> nat \<Rightarrow> nat arr \<Rightarrow> dbl arr \<Rightarrow> dbl arr \<Rightarrow> dbl arr \<Rightarrow> dbl arr \<Rightarrow> dbl arr
     \<Rightarrow> error + dbl \<times> dbl arr \<times> dbl arr \<times> dbl arr"
where
  "block_fwdb mem_ok m nblocks sizes Q init prob phi sumtrans =
     (if \<not> mem_ok then Inl MemoryError
      else case block_loop m sizes Q init [0..<nblocks]
                  (0, Fin 0, prob, phi, memset0 sumtrans 0 (m * m), \<lambda>_. NaN) of
             Inl e \<Rightarrow> Inl e
           | Inr (offset, loglik, prob', phi', sumtrans', T) \<Rightarrow>
               Inr (loglik, prob', phi', sumtrans'))"

section \<open>Notions used to state the properties of the forward pass\<close>



section \<open>Notions used to state the properties of the block driver\<close>

text \<open>Two arrays agree on their first \<open>len\<close> cells; the same for the states of the
  loops of the backward pass.\<close>

definition agree :: "nat \<Rightarrow> 'a arr \<Rightarrow> 'a arr \<Rightarrow> bool" where
  "agree len p q = (\<forall>c<len. p c = q c)"

definition agree2 :: "nat \<Rightarrow> nat \<Rightarrow> dbl arr \<times> dbl arr \<Rightarrow> dbl arr \<times> dbl arr \<Rightarrow> bool" where
  "agree2 m n s s2 = (agree (m * n) (fst s) (fst s2) \<and> agree (m * m) (snd s) (snd s2))"

definition agree3 ::
  "nat \<Rightarrow> nat \<Rightarrow> dbl arr \<times> dbl arr \<times> dbl arr \<Rightarrow> dbl arr \<times> dbl arr \<times> dbl arr \<Rightarrow> bool" where
  "agree3 m n s s2 = (fst s = fst s2 \<and> agree2 m n (snd s) (snd s2))"

text \<open>
  The offset of block \<open>b\<close>, as the driver accumulates it, and the driver run on
  block \<open>b\<close> alone, with \<open>nblocks = 1\<close>, on the data of that block.
\<close>

definition block_offset :: "nat \<Rightarrow> nat arr \<Rightarrow> nat \<Rightarrow> nat" where
  "block_offset m sizes b = fold (\<lambda>i offset. offset + m * sizes i) [0..<b] 0"

definition single_block ::
  "nat \<Rightarrow> nat arr \<Rightarrow> dbl arr \<Rightarrow> dbl arr \<Rightarrow> dbl arr \<Rightarrow> dbl arr \<Rightarrow> dbl arr \<Rightarrow> nat
     \<Rightarrow> error + dbl \<times> dbl arr \<times> dbl arr \<times> dbl arr" where
  "single_block m sizes Q init prob phi sumtrans b =
     block_fwdb True m 1 (\<lambda>_. sizes b) Q init (shift prob (block_offset m sizes b)) phi sumtrans"

text \<open>The log-likelihood and the summed transitions that a run of the driver returns.\<close>

definition loglik_of :: "error + dbl \<times> dbl arr \<times> dbl arr \<times> dbl arr \<Rightarrow> dbl" where
  "loglik_of r = (case r of Inl e \<Rightarrow> NaN | Inr (loglik, prob, phi, sumtrans) \<Rightarrow> loglik)"

definition sumtrans_of :: "error + dbl \<times> dbl arr \<times> dbl arr \<times> dbl arr \<Rightarrow> dbl arr" where
  "sumtrans_of r = (case r of Inl e \<Rightarrow> (\<lambda>_. NaN) | Inr (loglik, prob, phi, sumtrans) \<Rightarrow> sumtrans)"

text \<open>The matrix \<open>T\<close> of one block, computed with fresh buffers.\<close>

definition block_T :: "nat \<Rightarrow> nat \<Rightarrow> dbl arr \<Rightarrow> dbl arr \<Rightarrow> dbl arr \<Rightarrow> dbl arr" where
  "block_T m n Q init prob =
     (case bwd m n Q (snd (fwd m n Q init prob)) (\<lambda>_. Fin 0) (\<lambda>_. Fin 0) of
        Inl e \<Rightarrow> (\<lambda>_. NaN) | Inr (phi, T) \<Rightarrow> T)"

section \<open>The emission evaluator\<close>

unbundle bit_operations_syntax

text \<open>
  The two structures of the trainer. The fields keep their names, prefixed; the
  pointers are the arrays they point to.
\<close>

record ChIP_t =
  chip_r :: nat
  chip_nb :: nat
  chip_y :: "int arr"
  chip_size :: "nat arr"

record jahmm_t =
  hmm_m :: nat
  hmm_ChIP :: ChIP_t
  hmm_Q :: "dbl arr"
  hmm_a :: dbl
  hmm_pi :: dbl
  hmm_p :: "dbl arr"
  hmm_pem :: "dbl arr"
  hmm_phi :: "dbl arr"
  hmm_path :: "nat arr"
  hmm_l :: dbl

text \<open>The number of observations: the sum of the block sizes.\<close>

definition n_obs :: "ChIP_t \<Rightarrow> nat" where
  "n_obs ChIP = fold (\<lambda>i temp. temp + chip_size ChIP i) [0..<chip_nb ChIP] 0"

text \<open>A loop that returns from the function at the first error.\<close>

fun fold_err :: "('a \<Rightarrow> 's \<Rightarrow> error + 's) \<Rightarrow> 'a list \<Rightarrow> 's \<Rightarrow> error + 's" where
  "fold_err f [] s = Inr s"
| "fold_err f (x # xs) s = (case f x s of Inl e \<Rightarrow> Inl e | Inr s' \<Rightarrow> fold_err f xs s')"

definition is_invalid :: "int arr \<Rightarrow> nat \<Rightarrow> nat \<Rightarrow> bool" where
  "is_invalid y k r = list_ex (\<lambda>i. y (i + k * r) < 0) [0..<r]"

definition is_all_zero :: "int arr \<Rightarrow> nat \<Rightarrow> nat \<Rightarrow> bool" where
  "is_all_zero y k r = list_all (\<lambda>i. y (i + k * r) = 0) [0..<r]"

text \<open>
  The output type is \<open>cases[otype & 3]\<close>, an array of three entries: the index 3
  reads past its end.
\<close>

datatype output_type = depends | log_space | lin_space

definition output_type_of :: "int \<Rightarrow> error + output_type" where
  "output_type_of otype =
     (if otype AND 3 = 0 then Inr depends
      else if otype AND 3 = 1 then Inr log_space
      else if otype AND 3 = 2 then Inr lin_space
      else Inl OutOfBounds)"

text \<open>
  The logarithms of the renormalized parameters. For every state the row of \<open>p\<close> is
  summed, with an error return at the first negative entry, and the logarithms of the
  row are stored. The warning about the renormalization is printed and not modelled.
\<close>

definition sum_p_row :: "nat \<Rightarrow> dbl arr \<Rightarrow> nat \<Rightarrow> error + dbl" where
  "sum_p_row r p i =
     fold_err (\<lambda>j sump. if dlt (p (j + i * (r + 1))) (Fin 0) then Inl NegativeP
                          else Inr (dadd sump (p (j + i * (r + 1)))))
       [0..<r + 1] (Fin 0)"

definition log_p_row :: "nat \<Rightarrow> dbl arr \<Rightarrow> nat \<Rightarrow> dbl \<Rightarrow> dbl arr \<Rightarrow> dbl arr" where
  "log_p_row r p i sump logp =
     fold (\<lambda>j logp. logp(j + i * (r + 1) := dlog (ddiv (p (j + i * (r + 1))) sump))) [0..<r + 1] logp"

definition log_params :: "nat \<Rightarrow> nat \<Rightarrow> dbl arr \<Rightarrow> error + dbl arr" where
  "log_params m r p =
     fold_err (\<lambda>i logp. case sum_p_row r p i of
                           Inl e \<Rightarrow> Inl e
                         | Inr sump \<Rightarrow> Inr (log_p_row r p i sump logp))
       [0..<m] (\<lambda>_. NaN)"

text \<open>The emissions of an all-zero row: the zero-inflated term.\<close>

definition zero_row :: "nat \<Rightarrow> nat \<Rightarrow> dbl \<Rightarrow> dbl \<Rightarrow> dbl arr \<Rightarrow> nat \<Rightarrow> dbl arr \<Rightarrow> dbl arr" where
  "zero_row m r a pi' logp k pem =
     fold (\<lambda>i pem. pem(i + k * m :=
                      dlog (dadd (dmul pi' (dexp (dmul a (logp (0 + i * (r + 1)))))) (dsub (Fin 1) pi'))))
       [0..<m] pem"

text \<open>The emissions of any other row: the standard probability.\<close>

definition count_row ::
  "nat \<Rightarrow> nat \<Rightarrow> int arr \<Rightarrow> dbl \<Rightarrow> dbl arr \<Rightarrow> nat \<Rightarrow> dbl arr \<Rightarrow> dbl arr" where
  "count_row m r y a logp k pem =
     fold (\<lambda>i pem.
             fold (\<lambda>j pem. pem(i + k * m :=
                              dadd (pem (i + k * m)) (dmul (of_i (y (j + k * r))) (logp ((j + 1) + i * (r + 1))))))
               [0..<r] (pem(i + k * m := dmul a (logp (0 + i * (r + 1))))))
       [0..<m] pem"

text \<open>
  The constant term of the row, when it is asked for. \<open>lgamma\<close> is the C library's
  and is a parameter here.
\<close>

definition c_term :: "(dbl \<Rightarrow> dbl) \<Rightarrow> nat \<Rightarrow> int arr \<Rightarrow> dbl \<Rightarrow> nat \<Rightarrow> dbl" where
  "c_term lgamma r y a k =
     (case fold (\<lambda>j (s, c). let term = y (j + k * r)
                             in (dadd s (of_i term), dsub c (lgamma (of_i (term + 1)))))
             [0..<r] (a, dneg (lgamma a)) of
        (s, c) \<Rightarrow> dadd c (lgamma s))"

definition add_c_term :: "nat \<Rightarrow> nat \<Rightarrow> dbl \<Rightarrow> dbl arr \<Rightarrow> dbl arr" where
  "add_c_term m k c pem = fold (\<lambda>i pem. pem(i + k * m := dadd (pem (i + k * m)) c)) [0..<m] pem"

text \<open>
  The end of a row that is not asked in log space: the exponentials are summed, and
  they replace the row if their sum is positive or linear space is forced.
\<close>

definition to_linear :: "nat \<Rightarrow> nat \<Rightarrow> output_type \<Rightarrow> dbl arr \<Rightarrow> dbl arr" where
  "to_linear m k out pem =
     (case fold (\<lambda>i (s, lin). let v = dexp (pem (i + k * m)) in (dadd s v, lin(i := v)))
             [0..<m] (Fin 0, \<lambda>_. NaN) of
        (s, lin) \<Rightarrow> if dgt s (Fin 0) \<or> out = lin_space then memcpy pem (k * m) lin 0 m else pem)"

text \<open>
  One row \<open>k\<close> of the evaluator. A row seen before (\<open>index[k] < k\<close>) is copied
  from its first occurrence; a negative index would read before the array. A row with
  a negative observation is a row of NaN.
\<close>

definition zinm_row ::
  "(dbl \<Rightarrow> dbl) \<Rightarrow> nat \<Rightarrow> nat \<Rightarrow> int arr \<Rightarrow> dbl \<Rightarrow> dbl \<Rightarrow> dbl arr \<Rightarrow> int arr \<Rightarrow> output_type \<Rightarrow> bool
     \<Rightarrow> nat \<Rightarrow> dbl arr \<Rightarrow> error + dbl arr"
where
  "zinm_row lgamma m r y a pi' logp index out compute_constant_terms k pem =
     (if index k < int k
      then (if index k < 0 then Inl OutOfBounds
            else Inr (memcpy pem (k * m) pem (nat (index k) * m) m))
      else if is_invalid y k r then Inr (memcpy pem (k * m) (\<lambda>_. NaN) 0 m)
      else
        let pem1 = (if is_all_zero y k r then zero_row m r a pi' logp k pem
                    else count_row m r y a logp k pem);
            pem2 = (if compute_constant_terms then add_c_term m k (c_term lgamma r y a k) pem1
                    else pem1)
        in if out = log_space then Inr pem2 else Inr (to_linear m k out pem2))"

text \<open>
  \<open>zinm_prob\<close> returns the new \<open>pem\<close>, or an error and \<open>pem\<close> is as it was.
  \<open>mem_ok\<close> tells whether \<open>logp\<close> and \<open>row_of_na\<close> could be allocated.
\<close>

definition zinm_prob ::
  "bool \<Rightarrow> (dbl \<Rightarrow> dbl) \<Rightarrow> jahmm_t \<Rightarrow> int arr \<Rightarrow> int \<Rightarrow> dbl arr \<Rightarrow> error + dbl arr"
where
  "zinm_prob mem_ok lgamma jahmm index otype pem =
     (let ChIP = hmm_ChIP jahmm;
          r = chip_r ChIP; y = chip_y ChIP; m = hmm_m jahmm;
          a = hmm_a jahmm; pi' = hmm_pi jahmm; p = hmm_p jahmm;
          n = n_obs ChIP;
          compute_constant_terms = (drop_bit 3 otype AND 1 = 1)
      in case output_type_of otype of
           Inl e \<Rightarrow> Inl e
         | Inr out \<Rightarrow>
             if \<not> mem_ok then Inl MemoryError
             else case log_params m r p of
                    Inl e \<Rightarrow> Inl e
                  | Inr logp \<Rightarrow>
                      fold_err (zinm_row lgamma m r y a pi' logp index out compute_constant_terms)
                        [0..<n] pem)"

section \<open>A worked example\<close>

text \<open>
  Two states, two tracks, one block of four observations; the second row repeats the
  first and the third is all zeros.
\<close>

definition scenario_A :: jahmm_t where
  "scenario_A =
     \<lparr>hmm_m = 2,
      hmm_ChIP = \<lparr>chip_r = 2, chip_nb = 1, chip_y = arr_of 0 [10, 0, 10, 0, 0, 0, 0, 5],
                  chip_size = arr_of 0 [4]\<rparr>,
      hmm_Q = arr_of NaN [Fin (19/20), Fin (1/20), Fin (1/20), Fin (19/20)],
      hmm_a = Fin 2, hmm_pi = Fin (1/2),
      hmm_p = arr_of NaN [Fin (1/2), Fin (3/10), Fin (1/5), Fin (1/5), Fin (1/2), Fin (3/10)],
      hmm_pem = (\<lambda>_. NaN), hmm_phi = (\<lambda>_. NaN), hmm_path = (\<lambda>_. 0), hmm_l = Fin 0\<rparr>"

section \<open>The emission of an all-zero row, as specified\<close>

text \<open>
  The specification's formula for a row of zeros: \<open>log(pi \<cdot> p0^a + (1 - pi))\<close>,
  over the reals.
\<close>

definition zero_inflated_log :: "real \<Rightarrow> real \<Rightarrow> real \<Rightarrow> dbl" where
  "zero_inflated_log \<pi> p0 \<alpha> = dlog (Fin (\<pi> * p0 powr \<alpha> + (1 - \<pi>)))"

section \<open>The Baum-Welch trainer\<close>

definition MAXITER :: nat where "MAXITER = 500"
definition JAHMM_MAXITER :: nat where "JAHMM_MAXITER = 25"
definition TOLERANCE :: dbl where "TOLERANCE = Fin (1 / 1000000)"

text \<open>
  Modelled from the spec: the macro \<open>sq\<close> belongs to \<open>utils.h\<close>, which is not in
  the sources; the derivative of the equation of the emission update squares with it.
\<close>

definition sq :: "dbl \<Rightarrow> dbl" where
  "sq x = dmul x x"

definition eval_bw_f :: "dbl \<Rightarrow> dbl \<Rightarrow> dbl \<Rightarrow> dbl \<Rightarrow> dbl \<Rightarrow> dbl \<Rightarrow> dbl \<Rightarrow> dbl \<Rightarrow> dbl" where
  "eval_bw_f a pi' p0 A B C D E =
     (let term1 = ddiv (dadd D (dmul a A)) p0;
          term2 = ddiv (dmul (dmul (dmul B pi') a) (dpow p0 (dsub a (Fin 1))))
                       (dsub (dadd (dmul pi' (dpow p0 a)) (Fin 1)) pi')
      in dsub (dadd p0 (ddiv E (dadd term1 term2))) (ddiv (Fin 1) C))"

definition eval_bw_dfdp0 :: "dbl \<Rightarrow> dbl \<Rightarrow> dbl \<Rightarrow> dbl \<Rightarrow> dbl \<Rightarrow> dbl \<Rightarrow> dbl \<Rightarrow> dbl \<Rightarrow> dbl" where
  "eval_bw_dfdp0 a pi' p0 A B C D E =
     (let term1 = ddiv (dadd D (dmul a A)) p0;
          term2 = ddiv (dmul (dmul (dmul B pi') a) (dpow p0 (dsub a (Fin 1))))
                       (dsub (dadd (dmul pi' (dpow p0 a)) (Fin 1)) pi');
          subterm3a = dmul (dmul (dmul (dmul (dsub (Fin 1) pi') pi') a) (dsub a (Fin 1)))
                           (dpow p0 (dsub a (Fin 2)));
          subterm3b = dmul (dmul (sq pi') a) (dpow p0 (dsub (dmul (Fin 2) a) (Fin 2)));
          term3 = ddiv (dmul B (dsub subterm3a subterm3b))
                       (sq (dsub (dadd (dmul pi' (dpow p0 a)) (Fin 1)) pi'));
          term4 = ddiv (dadd D (dmul a A)) (sq p0)
      in dsub (Fin 1) (dmul (ddiv E (sq (dadd term1 term2))) (dsub term3 term4)))"

text \<open>
  The sums of the emission update for state \<open>i\<close>: \<open>B\<close> over the rows indexed as the
  first all-zero row \<open>i0\<close>, and \<open>A\<close>, \<open>D\<close> and \<open>ystar[1..r)\<close> over the others.
  The observations enter as they are stored, negative ones included.
\<close>

definition bw_sums ::
  "nat \<Rightarrow> nat \<Rightarrow> nat \<Rightarrow> int arr \<Rightarrow> int arr \<Rightarrow> int \<Rightarrow> dbl arr \<Rightarrow> nat \<Rightarrow> dbl \<times> dbl \<times> dbl \<times> dbl arr"
where
  "bw_sums m r n y index i0 phi i =
     fold (\<lambda>k (A, B, D, ystar).
             if index k = i0 then (A, dadd B (phi (i + k * m)), D, ystar)
             else (dadd A (phi (i + k * m)), B,
                   dadd D (dmul (phi (i + k * m)) (of_i (y (0 + k * r)))),
                   fold (\<lambda>j ystar. ystar(j := dadd (ystar j) (dmul (phi (i + k * m)) (of_i (y (j + k * r))))))
                     [1..<r] ystar))
       [0..<n] (Fin 0, Fin 0, Fin 0, memset0 (\<lambda>_. NaN) 0 r)"

definition sum_ystar :: "nat \<Rightarrow> dbl arr \<Rightarrow> dbl" where
  "sum_ystar r ystar = fold (\<lambda>j E. dadd E (ystar j)) [1..<r] (Fin 0)"

text \<open>
  The two loops that look for the bounds of \<open>p0\<close>. Nothing bounds them: each is
  the value \<open>None\<close> when it does not return.
\<close>

partial_function (option) grow :: "(dbl \<Rightarrow> dbl) \<Rightarrow> dbl \<Rightarrow> dbl option" where
  "grow f p0 = (if dlt (f p0) (Fin 0) then grow f (twice p0) else Some p0)"

partial_function (option) shrink :: "(dbl \<Rightarrow> dbl) \<Rightarrow> dbl \<Rightarrow> dbl option" where
  "shrink f p0 = (if dgt (f p0) (Fin 0) then shrink f (half p0) else Some p0)"

text \<open>The bracketing returns \<open>(p0, p0_lo, p0_hi)\<close>.\<close>

definition bracket :: "(dbl \<Rightarrow> dbl) \<Rightarrow> (dbl \<times> dbl \<times> dbl) option" where
  "bracket f =
     (if dlt (f (Fin (1/2))) (Fin 0)
      then (case grow f (twice (Fin (1/2))) of
              None \<Rightarrow> None
            | Some p0 \<Rightarrow> Some (p0, ddiv p0 (Fin 2), p0))
      else (case shrink f (half (Fin (1/2))) of
              None \<Rightarrow> None
            | Some p0 \<Rightarrow> Some (p0, p0, dmul p0 (Fin 2))))"

text \<open>
  The Newton iterations between the bounds, on the state
  \<open>(p0, new_p0, p0_lo, p0_hi, stopped)\<close>; \<open>stopped\<close> is the \<open>break\<close>.
\<close>

definition newton_step ::
  "(dbl \<Rightarrow> dbl) \<Rightarrow> (dbl \<Rightarrow> dbl) \<Rightarrow> dbl \<times> dbl \<times> dbl \<times> dbl \<times> bool \<Rightarrow> dbl \<times> dbl \<times> dbl \<times> dbl \<times> bool"
where
  "newton_step f dfdp0 s =
     (case s of (p0', new_p0, p0_lo, p0_hi, stopped) \<Rightarrow>
        if stopped then s
        else
          let p0 = (if dlt new_p0 p0_lo \<or> dgt new_p0 p0_hi then ddiv (dadd p0_lo p0_hi) (Fin 2)
                    else new_p0);
              fv = f p0;
              hi = (if dgt fv (Fin 0) then p0 else p0_hi);
              lo = (if dgt fv (Fin 0) then p0_lo else p0)
          in if dlt (dsub hi lo) TOLERANCE then (p0, new_p0, lo, hi, True)
             else (p0, dsub p0 (ddiv fv (dfdp0 p0)), lo, hi, False))"

definition newton :: "(dbl \<Rightarrow> dbl) \<Rightarrow> (dbl \<Rightarrow> dbl) \<Rightarrow> dbl \<Rightarrow> dbl \<Rightarrow> dbl \<Rightarrow> dbl" where
  "newton f dfdp0 p0 p0_lo p0_hi =
     fst (fold (\<lambda>j. newton_step f dfdp0) [0..<JAHMM_MAXITER]
            (p0, ddiv (dadd p0_lo p0_hi) (Fin 2), p0_lo, p0_hi, False))"

text \<open>
  The emission update of state \<open>i\<close> writes row \<open>i\<close> of \<open>newp\<close>, or fails to
  bracket \<open>p0\<close> and the trainer gives up.
\<close>

definition bw_terms :: "dbl \<Rightarrow> dbl \<Rightarrow> dbl \<Rightarrow> dbl \<Rightarrow> dbl \<Rightarrow> dbl \<Rightarrow> dbl" where
  "bw_terms a pi' p0 A B D =
     (let term1 = ddiv (dadd D (dmul a A)) p0;
          term2 = ddiv (dmul (dmul (dmul B pi') a) (dpow p0 (dsub a (Fin 1))))
                       (dsub (dadd (dmul pi' (dpow p0 a)) (Fin 1)) pi')
      in dadd term1 term2)"

definition bw_normconst :: "dbl \<Rightarrow> dbl \<Rightarrow> dbl \<Rightarrow> dbl \<Rightarrow> dbl \<Rightarrow> dbl \<Rightarrow> dbl \<Rightarrow> dbl" where
  "bw_normconst a pi' p0 A B C D = ddiv (bw_terms a pi' p0 A B D) C"

definition write_newp ::
  "nat \<Rightarrow> dbl \<Rightarrow> dbl \<Rightarrow> dbl \<Rightarrow> dbl \<Rightarrow> dbl \<Rightarrow> dbl \<Rightarrow> dbl \<Rightarrow> dbl \<Rightarrow> dbl arr \<Rightarrow> nat \<Rightarrow> dbl arr \<Rightarrow> dbl arr"
where
  "write_newp r a pi' R p0 A B C D ystar i newp =
     (let newp1 = newp(0 + i * (r + 1) := p0);
          newp2 = newp1(1 + i * (r + 1) := dmul p0 R);
          normconst = bw_normconst a pi' p0 A B C D
      in fold (\<lambda>j newp. newp((j + 1) + i * (r + 1) := ddiv (ystar j) normconst)) [1..<r] newp2)"

definition bw_state ::
  "nat \<Rightarrow> nat \<Rightarrow> nat \<Rightarrow> int arr \<Rightarrow> int arr \<Rightarrow> int \<Rightarrow> dbl \<Rightarrow> dbl \<Rightarrow> dbl \<Rightarrow> dbl arr \<Rightarrow> nat \<Rightarrow> dbl arr
     \<Rightarrow> (error + dbl arr) option"
where
  "bw_state m r n y index i0 a pi' R phi i newp =
     (case bw_sums m r n y index i0 phi i of
        (A, B, D, ystar) \<Rightarrow>
          let C = dadd (Fin 1) R;
              E = sum_ystar r ystar
          in case bracket (\<lambda>p0. eval_bw_f a pi' p0 A B C D E) of
               None \<Rightarrow> None
             | Some (p0', p0_lo, p0_hi) \<Rightarrow>
                 if dgt p0_lo (Fin 1) \<or> dlt p0_hi (Fin 0) then Some (Inl CannotComplete)
                 else
                   let p0 = newton (\<lambda>p0. eval_bw_f a pi' p0 A B C D E)
                              (\<lambda>p0. eval_bw_dfdp0 a pi' p0 A B C D E) p0' p0_lo p0_hi
                   in Some (Inr (write_newp r a pi' R p0 A B C D ystar i newp)))"

text \<open>The loop over the states, left at the first failure.\<close>

fun bw_states ::
  "nat \<Rightarrow> nat \<Rightarrow> nat \<Rightarrow> int arr \<Rightarrow> int arr \<Rightarrow> int \<Rightarrow> dbl \<Rightarrow> dbl \<Rightarrow> dbl \<Rightarrow> dbl arr \<Rightarrow> nat list \<Rightarrow> dbl arr
     \<Rightarrow> (error + dbl arr) option"
where
  "bw_states m r n y index i0 a pi' R phi [] newp = Some (Inr newp)"
| "bw_states m r n y index i0 a pi' R phi (i # is) newp =
     (case bw_state m r n y index i0 a pi' R phi i newp of
        None \<Rightarrow> None
      | Some (Inl e) \<Rightarrow> Some (Inl e)
      | Some (Inr newp') \<Rightarrow> bw_states m r n y index i0 a pi' R phi is newp')"

text \<open>The largest change of a parameter.\<close>

definition max_change :: "nat \<Rightarrow> dbl arr \<Rightarrow> dbl arr \<Rightarrow> dbl" where
  "max_change len newp p =
     fold (\<lambda>i maxd. let thisd = dfabs (dsub (newp i) (p i)) in if dgt thisd maxd then thisd else maxd)
       [0..<len] (Fin 0)"

text \<open>
  One cycle of the trainer, on the structure and the buffers \<open>(pem, phi, trans, newp)\<close>.
  The evaluator returns nothing: after an error of its own \<open>pem\<close> is as it was. The
  log-likelihood is the value that the call of the block driver gives. \<open>Q\<close> and
  \<open>p\<close> are the arrays of the structure, updated in place.
\<close>

type_synonym bw_buffers = "dbl arr \<times> dbl arr \<times> dbl arr \<times> dbl arr"

datatype bw_outcome =
    Failed error
  | Aborted jahmm_t
  | Converged jahmm_t bw_buffers
  | Continue jahmm_t bw_buffers

definition e_step ::
  "bool \<Rightarrow> (dbl \<Rightarrow> dbl) \<Rightarrow> int arr \<Rightarrow> dbl arr \<Rightarrow> jahmm_t \<Rightarrow> dbl arr \<Rightarrow> dbl arr \<Rightarrow> dbl arr
     \<Rightarrow> error + dbl \<times> dbl arr \<times> dbl arr \<times> dbl arr"
where
  "e_step mem_ok lgamma index prob jahmm pem phi tr =
     (let ChIP = hmm_ChIP jahmm;
          pem1 = (case zinm_prob mem_ok lgamma jahmm index 4 pem of Inl e \<Rightarrow> pem | Inr pem' \<Rightarrow> pem')
      in block_fwdb mem_ok (hmm_m jahmm) (chip_nb ChIP) (chip_size ChIP) (hmm_Q jahmm) prob pem1 phi tr)"

definition bw_cycle ::
  "bool \<Rightarrow> (dbl \<Rightarrow> dbl) \<Rightarrow> int arr \<Rightarrow> int \<Rightarrow> dbl \<Rightarrow> dbl arr \<Rightarrow> jahmm_t \<Rightarrow> bw_buffers \<Rightarrow> bw_outcome option"
where
  "bw_cycle mem_ok lgamma index i0 R prob jahmm bufs =
     (case bufs of (pem, phi, tr, newp) \<Rightarrow>
        let ChIP = hmm_ChIP jahmm; m = hmm_m jahmm; r = chip_r ChIP; n = n_obs ChIP
        in case e_step mem_ok lgamma index prob jahmm pem phi tr of
             Inl e \<Rightarrow> Some (Failed e)
           | Inr (loglik, pem2, phi', tr') \<Rightarrow>
               let jahmm1 = jahmm\<lparr>hmm_l := loglik, hmm_Q := update_trans m (hmm_Q jahmm) tr'\<rparr>
               in case bw_states m r n (chip_y ChIP) index i0 (hmm_a jahmm) (hmm_pi jahmm) R phi'
                         [0..<m] newp of
                    None \<Rightarrow> None
                  | Some (Inl e) \<Rightarrow> Some (Aborted jahmm1)
                  | Some (Inr newp') \<Rightarrow>
                      if dlt (max_change (m * (r + 1)) newp' (hmm_p jahmm1)) TOLERANCE
                      then Some (Converged jahmm1 (pem2, phi', tr', newp'))
                      else Some (Continue (jahmm1\<lparr>hmm_p := memcpy (hmm_p jahmm1) 0 newp' 0 (m * (r + 1))\<rparr>)
                                   (pem2, phi', tr', newp')))"

text \<open>
  The cycles, at most \<open>MAXITER\<close> of them. The result is the structure, with the error
  when the trainer gave up, or \<open>None\<close> when a bracketing loop does not return.
\<close>

fun bw_cycles ::
  "nat \<Rightarrow> bool \<Rightarrow> (dbl \<Rightarrow> dbl) \<Rightarrow> int arr \<Rightarrow> int \<Rightarrow> dbl \<Rightarrow> dbl arr \<Rightarrow> jahmm_t \<Rightarrow> bw_buffers
     \<Rightarrow> (error option \<times> jahmm_t \<times> bw_buffers) option"
where
  "bw_cycles 0 mem_ok lgamma index i0 R prob jahmm bufs = Some (None, jahmm, bufs)"
| "bw_cycles (Suc iters) mem_ok lgamma index i0 R prob jahmm bufs =
     (case bw_cycle mem_ok lgamma index i0 R prob jahmm bufs of
        None \<Rightarrow> None
      | Some (Failed e) \<Rightarrow> Some (Some e, jahmm, bufs)
      | Some (Aborted jahmm') \<Rightarrow> Some (Some CannotComplete, jahmm', bufs)
      | Some (Converged jahmm' bufs') \<Rightarrow> Some (None, jahmm', bufs')
      | Some (Continue jahmm' bufs') \<Rightarrow> bw_cycles iters mem_ok lgamma index i0 R prob jahmm' bufs')"

text \<open>
  The trainer at the start of cycle \<open>c\<close>: the structure and the buffers after
  \<open>c\<close> cycles that each ran to the end of the loop body, the copy of \<open>newp\<close>
  into \<open>p\<close>; \<open>None\<close> when one of them left the loop or did not return.
\<close>

fun bw_completed ::
  "nat \<Rightarrow> bool \<Rightarrow> (dbl \<Rightarrow> dbl) \<Rightarrow> int arr \<Rightarrow> int \<Rightarrow> dbl \<Rightarrow> dbl arr \<Rightarrow> jahmm_t \<Rightarrow> bw_buffers
     \<Rightarrow> (jahmm_t \<times> bw_buffers) option"
where
  "bw_completed 0 mem_ok lgamma index i0 R prob jahmm bufs = Some (jahmm, bufs)"
| "bw_completed (Suc c) mem_ok lgamma index i0 R prob jahmm bufs =
     (case bw_cycle mem_ok lgamma index i0 R prob jahmm bufs of
        Some (Continue jahmm' bufs') \<Rightarrow> bw_completed c mem_ok lgamma index i0 R prob jahmm' bufs'
      | _ \<Rightarrow> None)"

text \<open>
  \<open>bw_zinm\<close>. The index of the series and the position \<open>i0\<close> of the first all-zero
  row come from \<open>indexts\<close>, which is not in the sources, and are parameters. The
  buffers are allocated with unspecified contents (here NaN). When the cycles end
  without a failure the emissions are computed once more, in log space, and \<open>phi\<close>
  and \<open>pem\<close> are stored in the structure.
\<close>

definition bw_zinm ::
  "bool \<Rightarrow> (dbl \<Rightarrow> dbl) \<Rightarrow> int arr \<Rightarrow> int \<Rightarrow> jahmm_t \<Rightarrow> (error option \<times> jahmm_t) option"
where
  "bw_zinm mem_ok lgamma index i0 jahmm =
     (let m = hmm_m jahmm;
          R = ddiv (hmm_p jahmm 1) (hmm_p jahmm 0)
      in if \<not> mem_ok then Some (Some MemoryError, jahmm)
         else
           let prob = fold (\<lambda>i prob. prob(i := ddiv (Fin 1) (of_i (int m)))) [0..<m] (\<lambda>_. NaN)
           in case bw_cycles MAXITER mem_ok lgamma index i0 R prob jahmm
                     (\<lambda>_. NaN, \<lambda>_. NaN, \<lambda>_. NaN, \<lambda>_. NaN) of
                None \<Rightarrow> None
              | Some (Some e, jahmm', bufs) \<Rightarrow> Some (Some e, jahmm')
              | Some (None, jahmm', (pem, phi, tr, newp)) \<Rightarrow>
                  let pem' = (case zinm_prob mem_ok lgamma jahmm' index 5 pem of
                                Inl e \<Rightarrow> pem | Inr pem' \<Rightarrow> pem')
                  in Some (None, jahmm'\<lparr>hmm_phi := phi, hmm_pem := pem'\<rparr>))"

section \<open>The emission update, as specified\<close>

text \<open>
  The specification's formula for the parameters of the tracks:
  \<open>ystar_j / ((D + a\<cdot>A)/p0 + B\<cdot>\<pi>\<cdot>a\<cdot>p0^(a-1)/(\<pi>\<cdot>p0^a + 1 - \<pi>)) \<cdot> 1/C\<close>.
\<close>

definition claimed_newp :: "dbl \<Rightarrow> dbl \<Rightarrow> dbl \<Rightarrow> dbl \<Rightarrow> dbl \<Rightarrow> dbl \<Rightarrow> dbl \<Rightarrow> dbl \<Rightarrow> dbl" where
  "claimed_newp ystar_j a pi' p0 A B C D =
     dmul (ddiv ystar_j (bw_terms a pi' p0 A B D)) (ddiv (Fin 1) C)"

section \<open>Two more worked examples\<close>

text \<open>
  One state, three tracks, one observation \<open>(1, 2, 3)\<close> with posterior 1.
\<close>

definition tracks_y :: "int arr" where "tracks_y = arr_of 0 [1, 2, 3]"
definition tracks_index :: "int arr" where "tracks_index = arr_of 0 [0]"
definition tracks_phi :: "dbl arr" where "tracks_phi = arr_of NaN [Fin 1]"

text \<open>
  Two states, four tracks, one block of three observations: two rows of zeros, then
  a row whose three last tracks are missing (\<open>NA\<close> is stored as \<open>-1\<close>). The
  parameters are legal: the rows of \<open>Q\<close> and of \<open>p\<close> sum to 1 and
  \<open>p[i,1] / p[i,0] = 1\<close> in both states.
\<close>

definition scenario_NA :: jahmm_t where
  "scenario_NA =
     \<lparr>hmm_m = 2,
      hmm_ChIP = \<lparr>chip_r = 4, chip_nb = 1,
                  chip_y = arr_of 0 [0, 0, 0, 0,  0, 0, 0, 0,  0, - 1, - 1, - 1],
                  chip_size = arr_of 0 [3]\<rparr>,
      hmm_Q = arr_of NaN [Fin (9/10), Fin (1/10), Fin (1/10), Fin (9/10)],
      hmm_a = Fin 1, hmm_pi = Fin 1,
      hmm_p = arr_of NaN [Fin (1/2), Fin (1/2), Fin 0, Fin 0, Fin 0,
                          Fin (1/4), Fin (1/4), Fin (1/2), Fin 0, Fin 0],
      hmm_pem = (\<lambda>_. NaN), hmm_phi = (\<lambda>_. NaN), hmm_path = (\<lambda>_. 0), hmm_l = Fin 0\<rparr>"

definition scenario_NA_index :: "int arr" where
  "scenario_NA_index = arr_of 0 [0, 0, 2]"

section \<open>Properties\<close>

subsection \<open>Cells of a matrix\<close>

text \<open>The cell \<open>i + j * m\<close> of an \<open>m\<close>-column layout determines \<open>i\<close> and \<open>j\<close>.\<close>

lemma cell_inj: "i < m \<Longrightarrow> i' < m \<Longrightarrow> i + j * m = i' + j' * m \<Longrightarrow> i = i' \<and> j = j'" for m :: nat
proof -
  assume a: "i < m" "i' < m" "i + j * m = i' + j' * m"
  from a(3) have "(i + j * m) mod m = (i' + j' * m) mod m" by simp
  with a(1,2) have e: "i = i'" by simp
  with a(3) have "j * m = j' * m" by simp
  with a(1) have "j = j'" by simp
  with e show ?thesis by simp
qed


lemma cell_inj2: "j < m \<Longrightarrow> j' < m \<Longrightarrow> j + i * m = j' + i' * m \<Longrightarrow> j = j' \<and> i = i'" for m :: nat
  using cell_inj by blast

lemma fold_write_other:
  "(\<And>i. i < n \<Longrightarrow> c \<noteq> h i) \<Longrightarrow> fold (\<lambda>i R. R(h i := G i (R (h i)))) [0..<n] R c = R c"
  by (induction n) simp_all

lemma fold_write_at:
  assumes "inj_on h {..<n}" "i < n"
  shows "fold (\<lambda>i R. R(h i := G i (R (h i)))) [0..<n] R (h i) = G i (R (h i))"
  using assms
proof (induction n)
  case 0
  then show ?case by simp
next
  case (Suc n)
  define F where "F = fold (\<lambda>i R. R(h i := G i (R (h i)))) [0..<n] R"
  have step: "fold (\<lambda>i R. R(h i := G i (R (h i)))) [0..<Suc n] R = F(h n := G n (F (h n)))"
    by (simp add: F_def)
  have inj: "inj_on h {..<n}"
    using Suc.prems(1) by (rule inj_on_subset) auto
  show ?case
  proof (cases "i = n")
    case True
    have "h n \<noteq> h i'" if "i' < n" for i'
      using inj_onD [OF Suc.prems(1), of n i'] that by auto
    then have "F (h n) = R (h n)"
      unfolding F_def by (intro fold_write_other) auto
    with True show ?thesis unfolding step by simp
  next
    case False
    with Suc.prems have i: "i < n" by simp
    have "h n \<noteq> h i"
      using inj_onD [OF Suc.prems(1), of n i] Suc.prems(2) False by auto
    moreover have "F (h i) = G i (R (h i))"
      unfolding F_def using Suc.IH [OF inj i] .
    ultimately show ?thesis unfolding step by simp
  qed
qed

lemma fold_pair_split:
  "fold (\<lambda>i (x, R). let v = g i in (dadd x v, R(h i := v))) [0..<n] (x0, R) =
     (fold (\<lambda>i s. dadd s (g i)) [0..<n] x0, fold (\<lambda>i R. R(h i := g i)) [0..<n] R)"
  by (induction n) (simp_all add: Let_def)

lemma row_cells_inj: "0 < m \<Longrightarrow> inj_on (\<lambda>i. j + i * m) {..<n}" for m :: nat
  by (auto simp: inj_on_def)


lemma fold_inv:
  assumes "\<And>x s. x \<in> set xs \<Longrightarrow> I s \<Longrightarrow> I (f x s)" "I s"
  shows "I (fold f xs s)"
  using assms by (induction xs arbitrary: s) simp_all

lemma fold_err_snoc:
  "fold_err f (xs @ [x]) s = (case fold_err f xs s of Inl e \<Rightarrow> Inl e | Inr s' \<Rightarrow> f x s')"
  by (induction xs arbitrary: s) (auto split: sum.splits)


lemma fold_write_other_list:
  "(\<And>i. i \<in> set xs \<Longrightarrow> c \<noteq> h i) \<Longrightarrow> fold (\<lambda>i R. R(h i := G i (R (h i)))) xs R c = R c"
  by (induction xs arbitrary: R) simp_all

lemma fold_write_at_list:
  assumes "distinct xs" "inj_on h (set xs)" "i \<in> set xs"
  shows "fold (\<lambda>i R. R(h i := G i (R (h i)))) xs R (h i) = G i (R (h i))"
  using assms
proof (induction xs arbitrary: R)
  case Nil
  then show ?case by simp
next
  case (Cons x xs)
  define R' where "R' = R(h x := G x (R (h x)))"
  have step: "fold (\<lambda>i R. R(h i := G i (R (h i)))) (x # xs) R = fold (\<lambda>i R. R(h i := G i (R (h i)))) xs R'"
    by (simp add: R'_def)
  show ?case
  proof (cases "i = x")
    case True
    have "h x \<noteq> h i'" if "i' \<in> set xs" for i'
      using Cons.prems(1,2) that by (auto simp: inj_on_def)
    then have "fold (\<lambda>i R. R(h i := G i (R (h i)))) xs R' (h x) = R' (h x)"
      by (intro fold_write_other_list) auto
    with True show ?thesis unfolding step by (simp add: R'_def)
  next
    case False
    with Cons.prems have i: "i \<in> set xs" by simp
    have ne: "h i \<noteq> h x" using Cons.prems(2) i False Cons.prems(1) by (auto simp: inj_on_def)
    have "fold (\<lambda>i R. R(h i := G i (R (h i)))) xs R' (h i) = G i (R' (h i))"
      using Cons.prems by (intro Cons.IH i) (auto simp: inj_on_def)
    with ne show ?thesis unfolding step by (simp add: R'_def)
  qed
qed

subsection \<open>Sums of doubles\<close>

lemma dadd_eq_Fin: "dadd x y = Fin s \<longleftrightarrow> (\<exists>a b. x = Fin a \<and> y = Fin b \<and> s = a + b)"
  by (cases x; cases y) auto


lemma dsum_0 [simp]: "dsum 0 f = Fin 0"
  by (simp add: dsum_def)

lemma dsum_Suc [simp]: "dsum (Suc m) f = dadd (dsum m f) (f m)"
  by (simp add: dsum_def)

lemma dsum_cong: "(\<And>j. j < m \<Longrightarrow> f j = g j) \<Longrightarrow> dsum m f = dsum m g"
  by (induction m) simp_all

lemma dsum_eq_Fin:
  "dsum m f = Fin s \<longleftrightarrow> (\<forall>j<m. \<exists>x. f j = Fin x) \<and> s = (\<Sum>j<m. re (f j))"
proof (induction m arbitrary: s)
  case 0
  then show ?case by auto
next
  case (Suc m)
  show ?case
    by (auto simp: dadd_eq_Fin Suc less_Suc_eq)
qed





text \<open>
  C1. The claim: the state written at the last position of \<open>path\<close> is the index that
  maximizes \<open>newmax\<close>, the lowest one on ties. The final-state loop compares every
  \<open>newmax[j]\<close> with \<open>newmax[0]\<close> and not with the best value so far, so it returns the
  last index that beats state 0. With three states, one position, log initial
  probabilities \<open>-3, -1, -2\<close> and log emissions \<open>0, 0, 0\<close>, \<open>newmax\<close> is
  \<open>-3, -1, -2\<close>: its maximum is at state 1 and the decoder writes state 2.
\<close>

theorem viterbi_final_state_not_argmax:
  "viterbi True 3 1 (\<lambda>_. Fin 0) (arr_of NaN [Fin (- 3), Fin (- 1), Fin (- 2)]) (\<lambda>_. Fin 0) (\<lambda>_. 0)
     = Inr ((\<lambda>_. 0)(0 := 2))
   \<and> argmax_first 3 (arr_of NaN [Fin (- 3), Fin (- 1), Fin (- 2)]) = 1
   \<and> final_state 3 (arr_of NaN [Fin (- 3), Fin (- 1), Fin (- 2)]) = 2"
  by (simp add: viterbi_def final_state_def argmax_first_def arr_of_def dgt_def
        upt_rec numeral_2_eq_2 numeral_3_eq_3 fun_eq_iff)

subsection \<open>The transition update\<close>

lemma update_row_loop:
  "fold (\<lambda>j Q. Q(i + j * m := ddiv (tr (i + j * m)) s)) [0..<n] Q x =
     (if \<exists>j<n. x = i + j * m then ddiv (tr x) s else Q x)"
  by (induction n) (auto simp: less_Suc_eq)

lemma update_row_cell:
  "update_row m tr i s Q x = (if \<exists>j<m. x = i + j * m then ddiv (tr x) s else Q x)"
  unfolding update_row_def by (rule update_row_loop)

lemma update_trans_loop:
  assumes "i < m" "j < m" "n \<le> m"
  shows "fold (\<lambda>i Q. update_row m tr i (rs i) Q) [0..<n] Q (i + j * m) =
     (if i < n then ddiv (tr (i + j * m)) (rs i) else Q (i + j * m))"
  using assms(3)
proof (induction n)
  case 0
  then show ?case by simp
next
  case (Suc n)
  define F where "F = fold (\<lambda>i Q. update_row m tr i (rs i) Q) [0..<n] Q"
  from Suc have IH: "F (i + j * m) =
     (if i < n then ddiv (tr (i + j * m)) (rs i) else Q (i + j * m))" and n: "n < m"
    by (simp_all add: F_def)
  have other: "n \<noteq> i \<Longrightarrow> \<not> (\<exists>j'<m. i + j * m = n + j' * m)"
    using cell_inj [OF assms(1) n] by blast
  have "fold (\<lambda>i Q. update_row m tr i (rs i) Q) [0..<Suc n] Q (i + j * m) =
        update_row m tr n (rs n) F (i + j * m)"
    by (simp add: F_def)
  also have "\<dots> = (if i < Suc n then ddiv (tr (i + j * m)) (rs i) else Q (i + j * m))"
    using IH assms(2) other by (auto simp: update_row_cell less_Suc_eq)
  finally show ?case .
qed

lemma update_trans_cell:
  assumes "i < m" "j < m"
  shows "update_trans m Q tr (i + j * m) = ddiv (tr (i + j * m)) (row_sum m tr i)"
  unfolding update_trans_def using update_trans_loop [OF assms, of m] assms by simp

text \<open>
  C3. The claim: a row of \<open>trans\<close> whose sum is zero leaves the row of \<open>Q\<close> as it
  was and no entry of the new \<open>Q\<close> is NaN; a row with a positive sum is normalised.
  The second half holds. The first does not: \<open>update_trans\<close> divides every row by its
  sum without looking at it, so a row of zeros becomes a row of \<open>0/0\<close>, that is NaN,
  and the previous row is overwritten.
\<close>

theorem update_trans_zero_row_counterexample:
  "row_sum 2 (arr_of NaN [Fin (1/2), Fin 0, Fin (1/2), Fin 0]) 1 = Fin 0
   \<and> update_trans 2 (arr_of NaN [Fin (9/10), Fin (1/10), Fin (1/10), Fin (9/10)])
         (arr_of NaN [Fin (1/2), Fin 0, Fin (1/2), Fin 0]) (1 + 0 * 2)
       \<noteq> arr_of NaN [Fin (9/10), Fin (1/10), Fin (1/10), Fin (9/10)] (1 + 0 * 2)
   \<and> is_nan (update_trans 2 (arr_of NaN [Fin (9/10), Fin (1/10), Fin (1/10), Fin (9/10)])
         (arr_of NaN [Fin (1/2), Fin 0, Fin (1/2), Fin 0]) (1 + 0 * 2))"
  by (simp add: update_trans_def update_row_def row_sum_def arr_of_def is_nan_def
        upt_rec numeral_2_eq_2)

text \<open>
  C3 as amended: every entry \<open>Q[i,j]\<close> is overwritten with \<open>trans[i,j]\<close> divided by
  the sum of row \<open>i\<close>, in double arithmetic. For a row with a positive sum that is
  the normalised row; a row whose entries and sum are zero is not kept, its entries
  become NaN.
\<close>

theorem update_trans_divides_every_row:
  assumes "i < m" "j < m"
  shows "update_trans m Q tr (i + j * m) = ddiv (tr (i + j * m)) (row_sum m tr i)
     \<and> (\<forall>s t. row_sum m tr i = Fin s \<and> 0 < s \<and> tr (i + j * m) = Fin t
            \<longrightarrow> update_trans m Q tr (i + j * m) = Fin (t / s))
     \<and> (row_sum m tr i = Fin 0 \<and> tr (i + j * m) = Fin 0
            \<longrightarrow> update_trans m Q tr (i + j * m) = NaN)"
  by (simp add: update_trans_cell [OF assms])

theorem update_trans_divides_every_row_witness:
  "(0::nat) < 2 \<and> (1::nat) < 2
   \<and> row_sum 2 (arr_of NaN [Fin (1/2), Fin 0, Fin (1/2), Fin 0]) 0 = Fin 1
   \<and> update_trans 2 (arr_of NaN [Fin (9/10), Fin (1/10), Fin (1/10), Fin (9/10)])
         (arr_of NaN [Fin (1/2), Fin 0, Fin (1/2), Fin 0]) (0 + 1 * 2) = Fin (1/2)
   \<and> row_sum 2 (arr_of NaN [Fin (1/2), Fin 0, Fin (1/2), Fin 0]) 1 = Fin 0
   \<and> update_trans 2 (arr_of NaN [Fin (9/10), Fin (1/10), Fin (1/10), Fin (9/10)])
         (arr_of NaN [Fin (1/2), Fin 0, Fin (1/2), Fin 0]) (1 + 1 * 2) = NaN"
  using update_trans_divides_every_row [of 0 2 1
          "arr_of NaN [Fin (9/10), Fin (1/10), Fin (1/10), Fin (9/10)]"
          "arr_of NaN [Fin (1/2), Fin 0, Fin (1/2), Fin 0]"]
        update_trans_divides_every_row [of 1 2 1
          "arr_of NaN [Fin (9/10), Fin (1/10), Fin (1/10), Fin (9/10)]"
          "arr_of NaN [Fin (1/2), Fin 0, Fin (1/2), Fin 0]"]
  by (simp add: row_sum_def arr_of_def upt_rec numeral_2_eq_2)

subsection \<open>The forward pass on a collapsed position\<close>

lemmas fwd_eval = fwd_def fwd_step_def fwd_combine_def na_found_def max_emission_def weigh_log_def weigh_lin_def
  normalize_def fwd_predict_def memcpy_def memset0_def arr_of_def is_nan_def dgt_def dsub_def
  upt_rec numeral_2_eq_2 Let_def

text \<open>
  C6. The claim: a position whose normalization constant \<open>c\<close> is not positive is
  treated as missing, for a row in linear space and for a row in log space alike:
  the alphas and the row of \<open>prob\<close> are the prediction \<open>tmp\<close>, and the position adds
  nothing to the log-likelihood. For a row in log space the source has already executed
  \<open>loglik += prob[w+k*m]\<close> when it tests \<open>c\<close>, and does not take it back. With two
  states, one position, \<open>init = (1, 0)\<close> and the log emissions \<open>(-\<infinity>, -1)\<close>, the
  only state of positive prior has emission zero, \<open>c = 0\<close>, the row of \<open>prob\<close> is
  \<open>init\<close> and the log-likelihood returned is \<open>-1\<close>, not \<open>0\<close>. The same collapse in
  linear space, with the emissions \<open>(0, 1/2)\<close>, returns \<open>0\<close>.
\<close>

theorem fwd_log_row_collapse_adds_to_loglik:
  "fst (fwd 2 1 Q (arr_of NaN [Fin 1, Fin 0]) (arr_of NaN [NInf, Fin (- 1)])) = Fin (- 1)
   \<and> snd (fwd 2 1 Q (arr_of NaN [Fin 1, Fin 0]) (arr_of NaN [NInf, Fin (- 1)])) (0 + 0 * 2) = Fin 1
   \<and> snd (fwd 2 1 Q (arr_of NaN [Fin 1, Fin 0]) (arr_of NaN [NInf, Fin (- 1)])) (1 + 0 * 2) = Fin 0
   \<and> fst (fwd 2 1 Q (arr_of NaN [Fin 1, Fin 0]) (arr_of NaN [Fin 0, Fin (1/2)])) = Fin 0"
  by (simp add: fwd_eval)

subsection \<open>The forward pass keeps the rows normalized\<close>





lemma weigh_cells:
  "fold (\<lambda>j (c, a). let v = g j in (dadd c v, a(j := v))) [0..<m] (Fin 0, a) =
     (dsum m g, \<lambda>j. if j < m then g j else a j)"
proof -
  have "fold (\<lambda>j a. a(j := g j)) [0..<m] a j = (if j < m then g j else a j)" for j
    using fold_write_at [where h = "\<lambda>j. j" and G = "\<lambda>j v. g j" and n = m and i = j and R = a]
          fold_write_other [where h = "\<lambda>j. j" and G = "\<lambda>j v. g j" and n = m and c = j and R = a]
    by (cases "j < m") auto
  then have "fold (\<lambda>j a. a(j := g j)) [0..<m] a = (\<lambda>j. if j < m then g j else a j)"
    by (rule ext)
  then show ?thesis
    using fold_pair_split [of g "\<lambda>j. j" m "Fin 0" a] by (simp add: dsum_def)
qed


















lemma dsum_Fin_cells:
  assumes "dsum m f = Fin s"
  shows "\<And>j. j < m \<Longrightarrow> f j = Fin (re (f j))" and "(\<Sum>j<m. re (f j)) = s"
proof -
  from assms have *: "\<forall>j<m. \<exists>x. f j = Fin x" and **: "s = (\<Sum>j<m. re (f j))"
    by (simp_all add: dsum_eq_Fin)
  show "f j = Fin (re (f j))" if "j < m" for j
    using * that by auto
  show "(\<Sum>j<m. re (f j)) = s" using ** by simp
qed









lemma dmul_NaN_left [simp]: "dmul NaN y = NaN"
  by (cases y) simp_all











subsection \<open>The reverse kernel of the backward pass\<close>

lemma kernel_row_eq:
  "kernel_row m Q alpha k j R =
     (dsum m (\<lambda>i. dmul (alpha (i + k * m)) (Q (i + j * m))),
      fold (\<lambda>i R. R(j + i * m := dmul (alpha (i + k * m)) (Q (i + j * m)))) [0..<m] R)"
  unfolding kernel_row_def dsum_def by (rule fold_pair_split)

lemma kernel_div_at:
  assumes "i < m"
  shows "kernel_div m Q alpha k j R (j + i * m) =
     ddiv (dmul (alpha (i + k * m)) (Q (i + j * m))) (dsum m (\<lambda>i. dmul (alpha (i + k * m)) (Q (i + j * m))))"
proof -
  from assms have m: "0 < m" by simp
  show ?thesis
    unfolding kernel_div_def kernel_row_eq prod.case
    using fold_write_at [where h = "\<lambda>i. j + i * m" and G = "\<lambda>i v. ddiv v x" for x, OF row_cells_inj [OF m] assms]
          fold_write_at [where h = "\<lambda>i. j + i * m" and G = "\<lambda>i v. dmul (alpha (i + k * m)) (Q (i + j * m))", OF row_cells_inj [OF m] assms]
    by simp
qed

lemma kernel_div_other:
  assumes "\<And>i. i < m \<Longrightarrow> c \<noteq> j + i * m"
  shows "kernel_div m Q alpha k j R c = R c"
  unfolding kernel_div_def kernel_row_eq prod.case
  using fold_write_other [where h = "\<lambda>i. j + i * m" and G = "\<lambda>i v. ddiv v x" for x, of m c] 
        fold_write_other [where h = "\<lambda>i. j + i * m" and G = "\<lambda>i v. dmul (alpha (i + k * m)) (Q (i + j * m))", of m c] assms
  by simp

lemma reverse_kernel_loop:
  assumes "i < m" "j < m" "n \<le> m"
  shows "fold (kernel_div m Q alpha k) [0..<n] R (j + i * m) =
     (if j < n then ddiv (dmul (alpha (i + k * m)) (Q (i + j * m)))
                      (dsum m (\<lambda>i. dmul (alpha (i + k * m)) (Q (i + j * m))))
      else R (j + i * m))"
  using assms(3)
proof (induction n)
  case 0
  then show ?case by simp
next
  case (Suc n)
  then have n: "n < m" by simp
  show ?case
  proof (cases "j = n")
    case True
    then show ?thesis using kernel_div_at [OF assms(1)] by simp
  next
    case False
    have "\<And>i'. i' < m \<Longrightarrow> j + i * m \<noteq> n + i' * m"
      using cell_inj2 [OF assms(2) n] False by blast
    then have "kernel_div m Q alpha k n F (j + i * m) = F (j + i * m)" for F
      by (rule kernel_div_other)
    with False Suc show ?thesis by (simp add: less_Suc_eq)
  qed
qed

lemma reverse_kernel_cell:
  assumes "i < m" "j < m"
  shows "reverse_kernel m Q alpha k R (j + i * m) =
     ddiv (dmul (alpha (i + k * m)) (Q (i + j * m)))
          (dsum m (\<lambda>i. dmul (alpha (i + k * m)) (Q (i + j * m))))"
  unfolding reverse_kernel_def using reverse_kernel_loop [OF assms, of m] assms by simp

lemmas bwd_eval = bwd_def bwd_step_def reverse_kernel_def kernel_div_def kernel_row_def smooth_def smooth_cell_def
  dsum_def memcpy_def memset0_def arr_of_def is_nan_def upt_rec numeral_2_eq_2 Let_def

lemma ddiv_zero_not_zero: "ddiv x (Fin 0) \<noteq> Fin y"
  by (cases x) (simp_all add: inf_of_sign_def)

text \<open>
  C5. The claim: where the denominator \<open>\<Sum>i. alpha[k,i] * Q[i,j]\<close> of the reverse
  kernel is zero, the row \<open>R[j,\<cdot>]\<close> is zero, never NaN or infinite, and state \<open>j\<close>
  contributes zero to \<open>phi\<close> and \<open>T\<close>. The source divides by \<open>x\<close> without a
  test. With two states, \<open>Q\<close> the identity and the alphas \<open>(1, 0)\<close> at position 0,
  no predecessor reaches state 1: the denominator is \<open>0\<close>, the row \<open>R[1,\<cdot>]\<close> is
  \<open>0/0\<close>, and the NaN spreads to both cells of \<open>phi\<close> at position 0 and to \<open>T\<close>.
\<close>

theorem reverse_kernel_zero_denominator_counterexample:
  "dsum 2 (\<lambda>i. dmul (arr_of NaN [Fin 1, Fin 0, Fin 1, Fin 0] (i + 0 * 2))
                   (arr_of NaN [Fin 1, Fin 0, Fin 0, Fin 1] (i + 1 * 2))) = Fin 0
   \<and> is_nan (reverse_kernel 2 (arr_of NaN [Fin 1, Fin 0, Fin 0, Fin 1])
               (arr_of NaN [Fin 1, Fin 0, Fin 1, Fin 0]) 0 (\<lambda>_. Fin 0) (1 + 0 * 2))
   \<and> is_nan (reverse_kernel 2 (arr_of NaN [Fin 1, Fin 0, Fin 0, Fin 1])
               (arr_of NaN [Fin 1, Fin 0, Fin 1, Fin 0]) 0 (\<lambda>_. Fin 0) (1 + 1 * 2))
   \<and> \<not> isl (bwd 2 2 (arr_of NaN [Fin 1, Fin 0, Fin 0, Fin 1])
               (arr_of NaN [Fin 1, Fin 0, Fin 1, Fin 0]) (\<lambda>_. Fin 0) (\<lambda>_. Fin 0))
   \<and> is_nan (fst (projr (bwd 2 2 (arr_of NaN [Fin 1, Fin 0, Fin 0, Fin 1])
               (arr_of NaN [Fin 1, Fin 0, Fin 1, Fin 0]) (\<lambda>_. Fin 0) (\<lambda>_. Fin 0))) (0 + 0 * 2))
   \<and> is_nan (fst (projr (bwd 2 2 (arr_of NaN [Fin 1, Fin 0, Fin 0, Fin 1])
               (arr_of NaN [Fin 1, Fin 0, Fin 1, Fin 0]) (\<lambda>_. Fin 0) (\<lambda>_. Fin 0))) (1 + 0 * 2))
   \<and> is_nan (snd (projr (bwd 2 2 (arr_of NaN [Fin 1, Fin 0, Fin 0, Fin 1])
               (arr_of NaN [Fin 1, Fin 0, Fin 1, Fin 0]) (\<lambda>_. Fin 0) (\<lambda>_. Fin 0))) (0 + 1 * 2))"
  by (simp add: bwd_eval)

text \<open>
  C5 as amended: every entry of the reverse kernel is
  \<open>alpha[k,i] * Q[i,j]\<close> divided by the denominator, in double arithmetic and with no
  test. Where the denominator is zero no entry of the row \<open>R[j,\<cdot>]\<close> is zero or any
  other finite number: an entry with a zero numerator is NaN, the others are infinite.
\<close>

theorem reverse_kernel_divides_every_row:
  assumes "i < m" "j < m"
  shows "reverse_kernel m Q alpha k R (j + i * m) =
           ddiv (dmul (alpha (i + k * m)) (Q (i + j * m)))
                (dsum m (\<lambda>i. dmul (alpha (i + k * m)) (Q (i + j * m))))
     \<and> (dsum m (\<lambda>i. dmul (alpha (i + k * m)) (Q (i + j * m))) = Fin 0
            \<longrightarrow> (\<forall>y. reverse_kernel m Q alpha k R (j + i * m) \<noteq> Fin y)
              \<and> (dmul (alpha (i + k * m)) (Q (i + j * m)) = Fin 0
                    \<longrightarrow> reverse_kernel m Q alpha k R (j + i * m) = NaN))"
  by (simp add: reverse_kernel_cell [OF assms] ddiv_zero_not_zero)

theorem reverse_kernel_divides_every_row_witness:
  "(0::nat) < 2 \<and> (1::nat) < 2
   \<and> dsum 2 (\<lambda>i. dmul (arr_of NaN [Fin 1, Fin 0, Fin 1, Fin 0] (i + 0 * 2))
                   (arr_of NaN [Fin 1, Fin 0, Fin 0, Fin 1] (i + 1 * 2))) = Fin 0
   \<and> dmul (arr_of NaN [Fin 1, Fin 0, Fin 1, Fin 0] (0 + 0 * 2))
           (arr_of NaN [Fin 1, Fin 0, Fin 0, Fin 1] (0 + 1 * 2)) = Fin 0
   \<and> reverse_kernel 2 (arr_of NaN [Fin 1, Fin 0, Fin 0, Fin 1])
         (arr_of NaN [Fin 1, Fin 0, Fin 1, Fin 0]) 0 (\<lambda>_. Fin 0) (1 + 0 * 2) = NaN"
  using reverse_kernel_divides_every_row [of 0 2 1 "arr_of NaN [Fin 1, Fin 0, Fin 0, Fin 1]"
          "arr_of NaN [Fin 1, Fin 0, Fin 1, Fin 0]" 0 "\<lambda>_. Fin 0"]
  by (simp add: dsum_def arr_of_def upt_rec numeral_2_eq_2)

subsection \<open>The block driver adds up the blocks\<close>

lemma fold_rel:
  assumes "\<And>x s s'. x \<in> set xs \<Longrightarrow> P s s' \<Longrightarrow> P (f x s) (f x s')" "P s s'"
  shows "P (fold f xs s) (fold f xs s')"
  using assms by (induction xs arbitrary: s s') simp_all

lemma cell_bound: "i < m \<Longrightarrow> k < n \<Longrightarrow> i + k * m < m * n" for m :: nat
proof -
  assume a: "i < m" "k < n"
  then have "Suc k * m \<le> n * m" by (intro mult_le_mono1) simp
  with a show ?thesis by (simp add: mult.commute)
qed

lemma agreeD: "agree len p q \<Longrightarrow> c < len \<Longrightarrow> p c = q c"
  by (simp add: agree_def)

lemma agree_upd: "agree len p q \<Longrightarrow> v = w \<Longrightarrow> agree len (p(c := v)) (q(c := w))"
  by (simp add: agree_def)

lemma smooth_cell_rel:
  assumes "Suc k < n" "i < m" "j < m" "agree2 m n s s2"
  shows "agree2 m n (smooth_cell m k R j i s) (smooth_cell m k R j i s2)"
proof -
  obtain phi T phi2 T2 where s: "s = (phi, T)" "s2 = (phi2, T2)"
    by (cases s; cases s2) blast
  from assms(4) have ag: "agree (m * n) phi phi2" "agree (m * m) T T2"
    by (simp_all add: agree2_def s)
  have b: "i + (k + 1) * m < m * n" "j + k * m < m * n" "j + i * m < m * m"
    using assms(1-3) cell_bound [of i m "k + 1" n] cell_bound [of j m k n] cell_bound [of j m i m]
    by simp_all
  have e: "phi (i + (k + 1) * m) = phi2 (i + (k + 1) * m)" "phi (j + k * m) = phi2 (j + k * m)"
      "T (j + i * m) = T2 (j + i * m)"
    using agreeD [OF ag(1) b(1)] agreeD [OF ag(1) b(2)] agreeD [OF ag(2) b(3)] by simp_all
  show ?thesis
    unfolding smooth_cell_def s prod.case Let_def agree2_def fst_conv snd_conv e
    by (intro conjI agree_upd ag refl)
qed

lemma smooth_rel:
  assumes "Suc k < n" "agree2 m n s s2"
  shows "agree2 m n (smooth m k R s) (smooth m k R s2)"
  unfolding smooth_def
proof (rule fold_rel [where P = "agree2 m n"])
  fix j t t2
  assume "j \<in> set [0..<m]" "agree2 m n t t2"
  then show "agree2 m n (fold (smooth_cell m k R j) [0..<m] t) (fold (smooth_cell m k R j) [0..<m] t2)"
    by (intro fold_rel [where P = "agree2 m n"] smooth_cell_rel [OF assms(1)]) simp_all
qed (rule assms(2))

lemma bwd_step_rel:
  assumes "Suc k < n" "agree3 m n s s2"
  shows "agree3 m n (bwd_step m Q alpha k s) (bwd_step m Q alpha k s2)"
proof -
  obtain R phi T R2 phi2 T2 where s: "s = (R, phi, T)" "s2 = (R2, phi2, T2)"
    by (cases s; cases s2) blast
  from assms(2) have R: "R2 = R" and ag: "agree2 m n (phi, T) (phi2, T2)"
    by (simp_all add: agree3_def s)
  from smooth_rel [OF assms(1) ag, of "reverse_kernel m Q alpha k R"]
  show ?thesis
    by (simp add: bwd_step_def s R agree3_def Let_def split: prod.splits)
qed

lemma bwd_independent_of_buffers:
  assumes "0 < n"
  shows "\<exists>phi' T' phi2' T2'. bwd m n Q alpha phi T = Inr (phi', T')
      \<and> bwd m n Q alpha phi2 T2 = Inr (phi2', T2')
      \<and> agree (m * n) phi' phi2' \<and> agree (m * m) T' T2'"
proof -
  define s where "s = (\<lambda>_::nat. NaN, memcpy (memset0 phi 0 (m * n)) ((n - 1) * m) alpha ((n - 1) * m) m,
     memset0 T 0 (m * m))"
  define s2 where "s2 = (\<lambda>_::nat. NaN, memcpy (memset0 phi2 0 (m * n)) ((n - 1) * m) alpha ((n - 1) * m) m,
     memset0 T2 0 (m * m))"
  have "agree3 m n s s2"
    by (simp add: agree3_def agree2_def agree_def s_def s2_def memcpy_def memset0_def)
  then have "agree3 m n (fold (bwd_step m Q alpha) (rev [0..<n - 1]) s)
      (fold (bwd_step m Q alpha) (rev [0..<n - 1]) s2)"
    by (intro fold_rel [where P = "agree3 m n"] bwd_step_rel) auto
  then show ?thesis
    using assms unfolding bwd_def Let_def s_def [symmetric] s2_def [symmetric]
    by (auto simp: agree3_def agree2_def split: prod.splits)
qed

lemma fwd_combine_frame:
  assumes "fwd_combine m k tmp (a0, prob, loglik) = (a', prob', l)" "c < k * m \<or> k * m + m \<le> c"
  shows "prob' c = prob c"
proof -
  have "memcpy prob (k * m) X 0 m c = prob c" for X
    using assms(2) by (auto simp: memcpy_def)
  with assms(1) show ?thesis
    by (auto simp: fwd_combine_def Let_def split: if_splits prod.splits)
qed

lemma fwd_step_frame:
  assumes "fwd_step m Q init k (tmp0, a0, prob, loglik) = (tmp', a', prob', l)"
    "c < k * m \<or> k * m + m \<le> c"
  shows "prob' c = prob c"
  using assms(1) fwd_combine_frame [OF _ assms(2)]
  by (auto simp: fwd_step_def Let_def split: prod.splits)

lemma fwd_loop_frame:
  "n' \<le> n \<Longrightarrow> m * n \<le> c \<Longrightarrow>
     fold (fwd_step m Q init) [0..<n'] (t0, a00, prob, l0) = (tmp, a, prob', l) \<Longrightarrow> prob' c = prob c"
proof (induction n' arbitrary: tmp a prob' l)
  case 0
  then show ?case by simp
next
  case (Suc n')
  obtain tmp1 a1 prob1 l1 where st: "fold (fwd_step m Q init) [0..<n'] (t0, a00, prob, l0) = (tmp1, a1, prob1, l1)"
    by (metis prod_cases4)
  with Suc have p: "prob1 c = prob c" by simp
  from Suc.prems(3) have step: "fwd_step m Q init n' (tmp1, a1, prob1, l1) = (tmp, a, prob', l)"
    by (simp add: st)
  from Suc.prems have "Suc n' * m \<le> n * m" by (intro mult_le_mono1) simp
  with Suc.prems have "n' * m + m \<le> c" by (simp add: mult.commute)
  with fwd_step_frame [OF step] p show ?case by simp
qed

lemma fwd_frame: "m * n \<le> c \<Longrightarrow> snd (fwd m n Q init prob) c = prob c"
proof -
  assume c: "m * n \<le> c"
  obtain tmp a prob' l where st: "fold (fwd_step m Q init) [0..<n] (\<lambda>_. NaN, \<lambda>_. NaN, prob, Fin 0) = (tmp, a, prob', l)"
    by (metis prod_cases4)
  from fwd_loop_frame [OF le_refl c st] show ?thesis by (simp add: fwd_def st)
qed


lemma dadd_zero_left [simp]: "dadd (Fin 0) x = x"
  by (cases x) simp_all

lemma shift_zero [simp]: "shift p 0 = p"
  by (simp add: shift_def)

lemma block_offset_Suc: "block_offset m sizes (Suc b) = block_offset m sizes b + m * sizes b"
  by (simp add: block_offset_def)

lemma add_trans_cell: "j < m * m \<Longrightarrow> add_trans m st T j = dadd (st j) (T j)"
  unfolding add_trans_def
  using fold_write_at [where h = "\<lambda>j. j" and G = "\<lambda>j v. dadd v (T j)" and n = "m * m" and i = j and R = st]
  by simp

lemma block_loop_snoc:
  "block_loop m sizes Q init (xs @ [b]) s =
     (case block_loop m sizes Q init xs s of Inl e \<Rightarrow> Inl e | Inr s' \<Rightarrow> block_loop m sizes Q init [b] s')"
  by (induction xs arbitrary: s) (auto split: sum.splits prod.splits)

lemma fwdb_result:
  assumes "0 < n"
  shows "\<exists>phi' T'. fwdb m n Q init prob phi T = Inr (fst (fwd m n Q init prob), snd (fwd m n Q init prob), phi', T')
     \<and> agree (m * m) T' (block_T m n Q init prob)"
proof -
  from bwd_independent_of_buffers [OF assms, of m Q "snd (fwd m n Q init prob)" phi T "\<lambda>_. Fin 0" "\<lambda>_. Fin 0"]
  show ?thesis
    by (auto simp: fwdb_def block_T_def split: prod.splits)
qed

lemma block_loop_one:
  assumes "0 < sizes b"
  shows "\<exists>phi' T'. block_loop m sizes Q init [b] (offset, loglik, prob, phi, st, T) =
      Inr (offset + m * sizes b, dadd loglik (fst (fwd m (sizes b) Q init (shift prob offset))),
           unshift prob offset (snd (fwd m (sizes b) Q init (shift prob offset))), phi',
           add_trans m st T', T')
     \<and> agree (m * m) T' (block_T m (sizes b) Q init (shift prob offset))"
proof -
  from fwdb_result [OF assms, of m Q init "shift prob offset" "shift phi offset" T]
  show ?thesis by auto
qed

lemma block_loop_inv:
  assumes pos: "\<And>b. b < nb \<Longrightarrow> 0 < sizes b" and st0: "\<And>j. j < m * m \<Longrightarrow> st0 j = Fin 0"
  shows "nb' \<le> nb \<Longrightarrow>
    \<exists>prob' phi' st' T'.
      block_loop m sizes Q init [0..<nb'] (0, Fin 0, prob, phi, st0, T0) =
        Inr (block_offset m sizes nb',
             dsum nb' (\<lambda>b. fst (fwd m (sizes b) Q init (shift prob (block_offset m sizes b)))),
             prob', phi', st', T')
      \<and> (\<forall>c. block_offset m sizes nb' \<le> c \<longrightarrow> prob' c = prob c)
      \<and> (\<forall>j<m * m. st' j = dsum nb' (\<lambda>b. block_T m (sizes b) Q init (shift prob (block_offset m sizes b)) j))"
proof (induction nb')
  case 0
  then show ?case using st0 by (simp add: block_offset_def)
next
  case (Suc nb')
  define off where "off = block_offset m sizes nb'"
  from Suc obtain prob1 phi1 st1 T1 where
    run: "block_loop m sizes Q init [0..<nb'] (0, Fin 0, prob, phi, st0, T0) =
        Inr (off, dsum nb' (\<lambda>b. fst (fwd m (sizes b) Q init (shift prob (block_offset m sizes b)))),
             prob1, phi1, st1, T1)"
    and rest: "\<And>c. off \<le> c \<Longrightarrow> prob1 c = prob c"
    and st1: "\<And>j. j < m * m \<Longrightarrow> st1 j = dsum nb' (\<lambda>b. block_T m (sizes b) Q init (shift prob (block_offset m sizes b)) j)"
    unfolding off_def by force
  have sh: "shift prob1 off = shift prob off"
    by (rule ext) (simp add: shift_def rest)
  define L where "L = dsum nb' (\<lambda>b. fst (fwd m (sizes b) Q init (shift prob (block_offset m sizes b))))"
  from Suc.prems have sz: "0 < sizes nb'" by (intro pos) simp
  from block_loop_one [where sizes = sizes and b = nb', OF sz, of m Q init off L prob1 phi1 st1 T1]
  obtain phi2 T2 where
    one: "block_loop m sizes Q init [nb'] (off, L, prob1, phi1, st1, T1) =
      Inr (off + m * sizes nb', dadd L (fst (fwd m (sizes nb') Q init (shift prob off))),
           unshift prob1 off (snd (fwd m (sizes nb') Q init (shift prob off))), phi2,
           add_trans m st1 T2, T2)"
    and T2: "agree (m * m) T2 (block_T m (sizes nb') Q init (shift prob off))"
    unfolding sh by blast
  have whole: "block_loop m sizes Q init [0..<Suc nb'] (0, Fin 0, prob, phi, st0, T0) =
      Inr (block_offset m sizes (Suc nb'),
           dsum (Suc nb') (\<lambda>b. fst (fwd m (sizes b) Q init (shift prob (block_offset m sizes b)))),
           unshift prob1 off (snd (fwd m (sizes nb') Q init (shift prob off))), phi2,
           add_trans m st1 T2, T2)"
    using run one unfolding L_def
    by (simp add: block_loop_snoc block_offset_Suc off_def del: block_loop.simps)
  have p: "unshift prob1 off (snd (fwd m (sizes nb') Q init (shift prob off))) c = prob c"
    if "block_offset m sizes (Suc nb') \<le> c" for c
  proof -
    from that have c: "off \<le> c" "m * sizes nb' \<le> c - off"
      by (simp_all add: block_offset_Suc off_def)
    then show ?thesis
      by (simp add: unshift_def fwd_frame shift_def)
  qed
  have t: "add_trans m st1 T2 j =
      dsum (Suc nb') (\<lambda>b. block_T m (sizes b) Q init (shift prob (block_offset m sizes b)) j)"
    if "j < m * m" for j
    using that st1 [OF that] agreeD [OF T2 that] by (simp add: add_trans_cell off_def)
  show ?case
    unfolding whole using p t by simp
qed


lemma single_block_result:
  assumes "0 < sizes b"
  shows "\<exists>p f st. single_block m sizes Q init prob phi sumtrans b =
        Inr (fst (fwd m (sizes b) Q init (shift prob (block_offset m sizes b))), p, f, st)
     \<and> (\<forall>j<m * m. st j = block_T m (sizes b) Q init (shift prob (block_offset m sizes b)) j)"
proof -
  define P where "P = shift prob (block_offset m sizes b)"
  define n where "n = sizes b"
  have z: "block_offset m (\<lambda>_. n) 0 = 0" by (simp add: block_offset_def)
  have "\<exists>prob' phi' st' T'.
      block_loop m (\<lambda>_. n) Q init [0..<1] (0, Fin 0, P, phi, memset0 sumtrans 0 (m * m), \<lambda>_. NaN) =
        Inr (block_offset m (\<lambda>_. n) 1,
             dsum 1 (\<lambda>b. fst (fwd m n Q init (shift P (block_offset m (\<lambda>_. n) b)))),
             prob', phi', st', T')
      \<and> (\<forall>c. block_offset m (\<lambda>_. n) 1 \<le> c \<longrightarrow> prob' c = P c)
      \<and> (\<forall>j<m * m. st' j = dsum 1 (\<lambda>b. block_T m n Q init (shift P (block_offset m (\<lambda>_. n) b)) j))"
  proof (rule block_loop_inv [where nb = 1 and sizes = "\<lambda>_. n"])
    show "\<And>b. b < 1 \<Longrightarrow> 0 < n" using assms by (simp add: n_def)
    show "\<And>j. j < m * m \<Longrightarrow> memset0 sumtrans 0 (m * m) j = Fin 0" by (simp add: memset0_def)
    show "(1::nat) \<le> 1" by simp
  qed
  then show ?thesis
    unfolding single_block_def block_fwdb_def P_def [symmetric] n_def [symmetric]
    by (auto simp: z)
qed

text \<open>
  C7. With blocks of positive sizes, the driver run once over \<open>nb\<close> blocks returns
  the sum, in block order, of the log-likelihoods that it returns when run on each
  block alone with \<open>nblocks = 1\<close>, and its summed transitions are the sum of the
  matrices that those runs return. Every run on a single block succeeds. These
  per-block values are the ones of the forward and backward passes: the
  log-likelihood of block \<open>b\<close> is the one \<open>fwd\<close> returns on the rows of the block,
  started from \<open>init\<close>, and its matrix is the \<open>T\<close> that \<open>bwd\<close> computes from the
  alphas of that block. The scratch buffers \<open>phis b\<close> and \<open>sts b\<close> of the single
  runs are arbitrary.
\<close>

theorem block_fwdb_sums_blocks:
  assumes "\<forall>b<nb. 0 < sizes b"
  shows "(\<forall>b<nb. \<exists>l p f T. single_block m sizes Q init prob (phis b) (sts b) b = Inr (l, p, f, T))
     \<and> (\<exists>prob' phi' st'.
          block_fwdb True m nb sizes Q init prob phi sumtrans =
            Inr (dsum nb (\<lambda>b. loglik_of (single_block m sizes Q init prob (phis b) (sts b) b)),
                 prob', phi', st')
          \<and> (\<forall>j<m * m. st' j =
                dsum nb (\<lambda>b. sumtrans_of (single_block m sizes Q init prob (phis b) (sts b) b) j))
          \<and> (\<forall>j<m * m. st' j =
                dsum nb (\<lambda>b. block_T m (sizes b) Q init (shift prob (block_offset m sizes b)) j)))
     \<and> dsum nb (\<lambda>b. loglik_of (single_block m sizes Q init prob (phis b) (sts b) b)) =
         dsum nb (\<lambda>b. fst (fwd m (sizes b) Q init (shift prob (block_offset m sizes b))))
     \<and> (\<forall>b<nb. loglik_of (single_block m sizes Q init prob (phis b) (sts b) b) =
                  fst (fwd m (sizes b) Q init (shift prob (block_offset m sizes b)))
              \<and> (\<forall>j<m * m. sumtrans_of (single_block m sizes Q init prob (phis b) (sts b) b) j =
                    block_T m (sizes b) Q init (shift prob (block_offset m sizes b)) j))"
proof -
  have pos: "\<And>b. b < nb \<Longrightarrow> 0 < sizes b" using assms by simp
  have l: "loglik_of (single_block m sizes Q init prob (phis b) (sts b) b) =
      fst (fwd m (sizes b) Q init (shift prob (block_offset m sizes b)))" if "b < nb" for b
    using single_block_result [where sizes = sizes and b = b, OF pos [OF that], of m Q init prob "phis b" "sts b"]
    by (auto simp: loglik_of_def)
  have t: "sumtrans_of (single_block m sizes Q init prob (phis b) (sts b) b) j =
      block_T m (sizes b) Q init (shift prob (block_offset m sizes b)) j" if "b < nb" "j < m * m" for b j
    using single_block_result [where sizes = sizes and b = b, OF pos [OF that(1)], of m Q init prob "phis b" "sts b"] that(2)
    by (auto simp: sumtrans_of_def)
  have first: "\<forall>b<nb. \<exists>l p f T. single_block m sizes Q init prob (phis b) (sts b) b = Inr (l, p, f, T)"
  proof (intro allI impI)
    fix b assume "b < nb"
    from single_block_result [where sizes = sizes and b = b, OF pos [OF this], of m Q init prob "phis b" "sts b"]
    show "\<exists>l p f T. single_block m sizes Q init prob (phis b) (sts b) b = Inr (l, p, f, T)"
      by blast
  qed
  have "\<exists>prob' phi' st' T'.
      block_loop m sizes Q init [0..<nb] (0, Fin 0, prob, phi, memset0 sumtrans 0 (m * m), \<lambda>_. NaN) =
        Inr (block_offset m sizes nb,
             dsum nb (\<lambda>b. fst (fwd m (sizes b) Q init (shift prob (block_offset m sizes b)))),
             prob', phi', st', T')
      \<and> (\<forall>c. block_offset m sizes nb \<le> c \<longrightarrow> prob' c = prob c)
      \<and> (\<forall>j<m * m. st' j = dsum nb (\<lambda>b. block_T m (sizes b) Q init (shift prob (block_offset m sizes b)) j))"
  proof (rule block_loop_inv [where nb = nb and sizes = sizes])
    show "\<And>b. b < nb \<Longrightarrow> 0 < sizes b" by (rule pos)
    show "\<And>j. j < m * m \<Longrightarrow> memset0 sumtrans 0 (m * m) j = Fin 0" by (simp add: memset0_def)
    show "nb \<le> nb" by simp
  qed
  then obtain prob' phi' st' T' where
    run: "block_loop m sizes Q init [0..<nb] (0, Fin 0, prob, phi, memset0 sumtrans 0 (m * m), \<lambda>_. NaN) =
        Inr (block_offset m sizes nb,
             dsum nb (\<lambda>b. fst (fwd m (sizes b) Q init (shift prob (block_offset m sizes b)))),
             prob', phi', st', T')"
    and st: "\<And>j. j < m * m \<Longrightarrow> st' j = dsum nb (\<lambda>b. block_T m (sizes b) Q init (shift prob (block_offset m sizes b)) j)"
    by blast
  have le: "dsum nb (\<lambda>b. fst (fwd m (sizes b) Q init (shift prob (block_offset m sizes b)))) =
      dsum nb (\<lambda>b. loglik_of (single_block m sizes Q init prob (phis b) (sts b) b))"
    by (rule dsum_cong) (simp add: l)
  have te: "st' j = dsum nb (\<lambda>b. sumtrans_of (single_block m sizes Q init prob (phis b) (sts b) b) j)"
    if "j < m * m" for j
    unfolding st [OF that] by (rule dsum_cong) (simp add: t that)
  have b: "block_fwdb True m nb sizes Q init prob phi sumtrans =
      Inr (dsum nb (\<lambda>b. loglik_of (single_block m sizes Q init prob (phis b) (sts b) b)), prob', phi', st')"
    by (simp add: block_fwdb_def run le)
  have second: "\<exists>prob' phi' st'.
          block_fwdb True m nb sizes Q init prob phi sumtrans =
            Inr (dsum nb (\<lambda>b. loglik_of (single_block m sizes Q init prob (phis b) (sts b) b)),
                 prob', phi', st')
          \<and> (\<forall>j<m * m. st' j =
                dsum nb (\<lambda>b. sumtrans_of (single_block m sizes Q init prob (phis b) (sts b) b) j))
          \<and> (\<forall>j<m * m. st' j =
                dsum nb (\<lambda>b. block_T m (sizes b) Q init (shift prob (block_offset m sizes b)) j))"
    using b te st by blast
  have fourth: "\<forall>b<nb. loglik_of (single_block m sizes Q init prob (phis b) (sts b) b) =
                  fst (fwd m (sizes b) Q init (shift prob (block_offset m sizes b)))
              \<and> (\<forall>j<m * m. sumtrans_of (single_block m sizes Q init prob (phis b) (sts b) b) j =
                    block_T m (sizes b) Q init (shift prob (block_offset m sizes b)) j)"
    using l t by blast
  from first second le [symmetric] fourth show ?thesis by (intro conjI)
qed

theorem block_fwdb_sums_blocks_witness:
  "0 < arr_of (0::nat) [1, 2] 0 \<and> 0 < arr_of (0::nat) [1, 2] 1
   \<and> loglik_of (block_fwdb True 2 2 (arr_of (0::nat) [1, 2])
         (arr_of NaN [Fin (9/10), Fin (1/10), Fin (1/10), Fin (9/10)]) (arr_of NaN [Fin (1/2), Fin (1/2)])
         (arr_of NaN [Fin (1/2), Fin (1/4), NaN, NaN, Fin 1, Fin 0]) (\<lambda>_. Fin 0) (\<lambda>_. Fin 0))
     = dadd (loglik_of (single_block 2 (arr_of (0::nat) [1, 2])
                 (arr_of NaN [Fin (9/10), Fin (1/10), Fin (1/10), Fin (9/10)]) (arr_of NaN [Fin (1/2), Fin (1/2)])
                 (arr_of NaN [Fin (1/2), Fin (1/4), NaN, NaN, Fin 1, Fin 0]) (\<lambda>_. Fin 0) (\<lambda>_. Fin 0) 0))
            (loglik_of (single_block 2 (arr_of (0::nat) [1, 2])
                 (arr_of NaN [Fin (9/10), Fin (1/10), Fin (1/10), Fin (9/10)]) (arr_of NaN [Fin (1/2), Fin (1/2)])
                 (arr_of NaN [Fin (1/2), Fin (1/4), NaN, NaN, Fin 1, Fin 0]) (\<lambda>_. Fin 0) (\<lambda>_. Fin 0) 1))
   \<and> loglik_of (block_fwdb True 2 2 (arr_of (0::nat) [1, 2])
         (arr_of NaN [Fin (9/10), Fin (1/10), Fin (1/10), Fin (9/10)]) (arr_of NaN [Fin (1/2), Fin (1/2)])
         (arr_of NaN [Fin (1/2), Fin (1/4), NaN, NaN, Fin 1, Fin 0]) (\<lambda>_. Fin 0) (\<lambda>_. Fin 0))
     = dadd (fst (fwd 2 1 (arr_of NaN [Fin (9/10), Fin (1/10), Fin (1/10), Fin (9/10)])
                   (arr_of NaN [Fin (1/2), Fin (1/2)])
                   (shift (arr_of NaN [Fin (1/2), Fin (1/4), NaN, NaN, Fin 1, Fin 0]) 0)))
            (fst (fwd 2 2 (arr_of NaN [Fin (9/10), Fin (1/10), Fin (1/10), Fin (9/10)])
                   (arr_of NaN [Fin (1/2), Fin (1/2)])
                   (shift (arr_of NaN [Fin (1/2), Fin (1/4), NaN, NaN, Fin 1, Fin 0]) 2)))
   \<and> sumtrans_of (block_fwdb True 2 2 (arr_of (0::nat) [1, 2])
         (arr_of NaN [Fin (9/10), Fin (1/10), Fin (1/10), Fin (9/10)]) (arr_of NaN [Fin (1/2), Fin (1/2)])
         (arr_of NaN [Fin (1/2), Fin (1/4), NaN, NaN, Fin 1, Fin 0]) (\<lambda>_. Fin 0) (\<lambda>_. Fin 0)) 0
     = dadd (block_T 2 1 (arr_of NaN [Fin (9/10), Fin (1/10), Fin (1/10), Fin (9/10)])
                   (arr_of NaN [Fin (1/2), Fin (1/2)])
                   (shift (arr_of NaN [Fin (1/2), Fin (1/4), NaN, NaN, Fin 1, Fin 0]) 0) 0)
            (block_T 2 2 (arr_of NaN [Fin (9/10), Fin (1/10), Fin (1/10), Fin (9/10)])
                   (arr_of NaN [Fin (1/2), Fin (1/2)])
                   (shift (arr_of NaN [Fin (1/2), Fin (1/4), NaN, NaN, Fin 1, Fin 0]) 2) 0)"
proof -
  have pos: "\<forall>b<2. 0 < arr_of (0::nat) [1, 2] b"
    by (simp add: arr_of_def numeral_2_eq_2 less_Suc_eq)
  have off: "block_offset 2 (arr_of (0::nat) [1, 2]) 0 = 0" "block_offset 2 (arr_of (0::nat) [1, 2]) 1 = 2"
    by (simp_all add: block_offset_def arr_of_def)
  have sz: "arr_of (0::nat) [1, 2] 0 = 1" "arr_of (0::nat) [1, 2] 1 = 2"
    by (simp_all add: arr_of_def)
  from block_fwdb_sums_blocks [OF pos, of 2 "arr_of NaN [Fin (9/10), Fin (1/10), Fin (1/10), Fin (9/10)]"
      "arr_of NaN [Fin (1/2), Fin (1/2)]" "arr_of NaN [Fin (1/2), Fin (1/4), NaN, NaN, Fin 1, Fin 0]"
      "\<lambda>_ _. Fin 0" "\<lambda>_ _. Fin 0" "\<lambda>_. Fin 0" "\<lambda>_. Fin 0"]
  show ?thesis
    using off sz by (auto simp: loglik_of_def sumtrans_of_def numeral_2_eq_2)
qed
subsection \<open>The emission evaluator\<close>

lemma row_cell_outside:
  fixes m :: nat
  assumes "c < k * m \<or> k * m + m \<le> c" "i < m"
  shows "c \<noteq> i + k * m"
  using assms by auto

lemma zero_row_frame:
  "c < k * m \<or> k * m + m \<le> c \<Longrightarrow> zero_row m r a pi' logp k pem c = pem c"
  unfolding zero_row_def
  using fold_write_other [where h = "\<lambda>i. i + k * m" and n = m and c = c and R = pem
      and G = "\<lambda>i v. dlog (dadd (dmul pi' (dexp (dmul a (logp (0 + i * (r + 1)))))) (dsub (Fin 1) pi'))"]
  by (auto dest: row_cell_outside)

lemma add_c_term_frame:
  "c < k * m \<or> k * m + m \<le> c \<Longrightarrow> add_c_term m k ct pem c = pem c"
  unfolding add_c_term_def
  using fold_write_other [where h = "\<lambda>i. i + k * m" and n = m and c = c and R = pem
      and G = "\<lambda>i v. dadd v ct"]
  by (auto dest: row_cell_outside)

lemma count_row_frame:
  assumes "c < k * m \<or> k * m + m \<le> c"
  shows "count_row m r y a logp k pem c = pem c"
  unfolding count_row_def
proof (rule fold_inv [where I = "\<lambda>s. s c = pem c"])
  fix i s
  assume i: "i \<in> set [0..<m]" and s: "s c = pem c"
  have ne: "c \<noteq> i + k * m" using assms i by auto
  show "fold (\<lambda>j pem. pem(i + k * m := dadd (pem (i + k * m)) (dmul (of_i (y (j + k * r))) (logp (j + 1 + i * (r + 1))))))
         [0..<r] (s(i + k * m := dmul a (logp (0 + i * (r + 1))))) c = pem c"
    by (rule fold_inv [where I = "\<lambda>s. s c = pem c"]) (use ne s in auto)
qed simp

lemma to_linear_frame:
  "c < k * m \<or> k * m + m \<le> c \<Longrightarrow> to_linear m k out pem c = pem c"
  by (auto simp: to_linear_def memcpy_def split: prod.splits)

lemma zinm_row_frame:
  assumes "zinm_row lgamma m r y a pi' logp index out cct k pem = Inr pem'"
    "c < k * m \<or> k * m + m \<le> c"
  shows "pem' c = pem c"
proof -
  have "memcpy pem (k * m) X s m c = pem c" for X s
    using assms(2) by (auto simp: memcpy_def)
  with assms(1) show ?thesis
    by (auto simp: zinm_row_def Let_def zero_row_frame [OF assms(2)] count_row_frame [OF assms(2)]
          add_c_term_frame [OF assms(2)] to_linear_frame [OF assms(2)] split: if_splits)
qed

lemma zinm_row_copy:
  assumes "zinm_row lgamma m r y a pi' logp index out cct k pem = Inr pem'" "index k < int k" "j < m"
  shows "0 \<le> index k \<and> pem' (j + k * m) = pem (j + nat (index k) * m)"
  using assms by (auto simp: zinm_row_def memcpy_def add.commute split: if_splits)

lemma cell_below:
  fixes m :: nat
  assumes "j < m" "k < n"
  shows "j + k * m < n * m"
  using cell_bound [OF assms] by (simp add: mult.commute)

lemma zinm_loop_copies:
  assumes "fold_err (zinm_row lgamma m r y a pi' logp index out cct) [0..<n] pem = Inr pem'"
    "k < n" "index k < int k" "j < m"
  shows "0 \<le> index k \<and> pem' (j + k * m) = pem' (j + nat (index k) * m)"
  using assms(1,2)
proof (induction n arbitrary: pem')
  case 0
  then show ?case by simp
next
  case (Suc n)
  from Suc.prems(1) obtain pem1 where
    run: "fold_err (zinm_row lgamma m r y a pi' logp index out cct) [0..<n] pem = Inr pem1"
    and step: "zinm_row lgamma m r y a pi' logp index out cct n pem1 = Inr pem'"
    by (auto simp: fold_err_snoc split: sum.splits)
  show ?case
  proof (cases "k = n")
    case True
    from zinm_row_copy [OF step] assms(3,4) True
    have nn: "0 \<le> index k" and cp: "pem' (j + k * m) = pem1 (j + nat (index k) * m)" by simp_all
    from nn assms(3) have "nat (index k) < n" using True by simp
    from cell_below [OF assms(4) this] have "j + nat (index k) * m < n * m" .
    with zinm_row_frame [OF step, of "j + nat (index k) * m"] cp nn show ?thesis by simp
  next
    case False
    with Suc.prems(2) have k: "k < n" by simp
    from Suc.IH [OF run k] have nn: "0 \<le> index k" and eq: "pem1 (j + k * m) = pem1 (j + nat (index k) * m)"
      by simp_all
    from nn assms(3) k have "nat (index k) < n" by simp
    from cell_below [OF assms(4) this] cell_below [OF assms(4) k]
    have "j + nat (index k) * m < n * m" "j + k * m < n * m" .
    with zinm_row_frame [OF step, of "j + nat (index k) * m"] zinm_row_frame [OF step, of "j + k * m"] eq nn
    show ?thesis by simp
  qed
qed

lemmas zinm_eval = zinm_prob_def n_obs_def output_type_of_def log_params_def sum_p_row_def
  log_p_row_def zinm_row_def is_invalid_def is_all_zero_def zero_row_def count_row_def
  memcpy_def arr_of_def of_i_def dsub_def upt_rec numeral_2_eq_2 numeral_3_eq_3 Let_def

lemma scenario_A_runs:
  "\<exists>pem'. zinm_prob True (\<lambda>_. Fin 0) scenario_A (arr_of 0 [0, 0, 2, 3]) 5 (\<lambda>_. NaN) = Inr pem'"
  by (simp add: scenario_A_def zinm_eval)

text \<open>
  C8. When the evaluator returns without an error, every row \<open>k\<close> with
  \<open>index[k] < k\<close> is equal, cell by cell, to the row \<open>index[k]\<close>, whatever the
  output type: the copy is made from a row that is complete and that no later
  iteration touches.
\<close>

theorem zinm_prob_copies_cached_rows:
  assumes "zinm_prob mem_ok lgamma jahmm index otype pem = Inr pem'"
    and "k < n_obs (hmm_ChIP jahmm)" and "index k < int k" and "j < hmm_m jahmm"
  shows "pem' (j + k * hmm_m jahmm) = pem' (j + nat (index k) * hmm_m jahmm)"
proof -
  from assms(1) obtain logp out where
    "fold_err (zinm_row lgamma (hmm_m jahmm) (chip_r (hmm_ChIP jahmm)) (chip_y (hmm_ChIP jahmm))
        (hmm_a jahmm) (hmm_pi jahmm) logp index out (drop_bit 3 otype AND 1 = 1))
      [0..<n_obs (hmm_ChIP jahmm)] pem = Inr pem'"
    by (auto simp: zinm_prob_def Let_def split: sum.splits if_splits)
  from zinm_loop_copies [where index = index and k = k, OF this assms(2,3,4)]
  show ?thesis by simp
qed


theorem zinm_prob_copies_cached_rows_witness:
  "1 < n_obs (hmm_ChIP scenario_A) \<and> arr_of 0 [0, 0, 2, 3] 1 < int 1 \<and> 1 < hmm_m scenario_A
   \<and> (case zinm_prob True (\<lambda>_. Fin 0) scenario_A (arr_of 0 [0, 0, 2, 3]) 5 (\<lambda>_. NaN) of
         Inl e \<Rightarrow> False
       | Inr pem' \<Rightarrow> pem' (1 + 1 * 2) = pem' (1 + 0 * 2))"
proof -
  obtain pem' where run: "zinm_prob True (\<lambda>_. Fin 0) scenario_A (arr_of 0 [0, 0, 2, 3]) 5 (\<lambda>_. NaN) = Inr pem'"
    using scenario_A_runs by blast
  have h: "1 < n_obs (hmm_ChIP scenario_A)" "arr_of 0 [0, 0, 2, 3] 1 < int 1" "1 < hmm_m scenario_A"
    by (simp_all add: scenario_A_def n_obs_def arr_of_def)
  have m: "hmm_m scenario_A = 2" and i: "nat (arr_of 0 [0, 0, 2, 3] 1) = 0"
    by (simp_all add: scenario_A_def arr_of_def)
  from zinm_prob_copies_cached_rows [OF run h] have "pem' (1 + 1 * 2) = pem' (1 + 0 * 2)"
    unfolding m i .
  with h show ?thesis unfolding run by simp
qed

lemma sum_p_row_loop:
  "fold_err (\<lambda>j sump. if dlt (f j) (Fin 0) then Inl NegativeP else Inr (dadd sump (f j))) [0..<n] s0 = Inr s
     \<Longrightarrow> s = fold (\<lambda>j s. dadd s (f j)) [0..<n] s0 \<and> (\<forall>j<n. \<not> dlt (f j) (Fin 0))"
  by (induction n arbitrary: s) (auto simp: fold_err_snoc less_Suc_eq split: sum.splits if_splits)

lemma sum_p_row_result:
  assumes "sum_p_row r p i = Inr sump"
  shows "sump = dsum (r + 1) (\<lambda>j. p (j + i * (r + 1)))" and "\<And>j. j < r + 1 \<Longrightarrow> \<not> dlt (p (j + i * (r + 1))) (Fin 0)"
  using sum_p_row_loop [of "\<lambda>j. p (j + i * (r + 1))" "r + 1" "Fin 0" sump] assms
  unfolding sum_p_row_def dsum_def by auto

lemma log_p_row_at:
  "j < r + 1 \<Longrightarrow> log_p_row r p i sump logp (j + i * (r + 1)) = dlog (ddiv (p (j + i * (r + 1))) sump)"
  unfolding log_p_row_def
  using fold_write_at [where h = "\<lambda>j. j + i * (r + 1)" and n = "r + 1" and i = j and R = logp
      and G = "\<lambda>j v. dlog (ddiv (p (j + i * (r + 1))) sump)"]
  by (simp add: inj_on_def)

lemma log_p_row_other:
  "(\<And>j. j < r + 1 \<Longrightarrow> c \<noteq> j + i * (r + 1)) \<Longrightarrow> log_p_row r p i sump logp c = logp c"
  unfolding log_p_row_def
  using fold_write_other [where h = "\<lambda>j. j + i * (r + 1)" and n = "r + 1" and c = c and R = logp
      and G = "\<lambda>j v. dlog (ddiv (p (j + i * (r + 1))) sump)"]
  by simp

lemma log_params_loop:
  assumes "fold_err (\<lambda>i logp. case sum_p_row r p i of Inl e \<Rightarrow> Inl e
                         | Inr sump \<Rightarrow> Inr (log_p_row r p i sump logp)) [0..<n] l0 = Inr logp"
    "i < n" "j < r + 1"
  shows "\<exists>sump. sum_p_row r p i = Inr sump \<and> logp (j + i * (r + 1)) = dlog (ddiv (p (j + i * (r + 1))) sump)"
  using assms(1,2)
proof (induction n arbitrary: logp)
  case 0
  then show ?case by simp
next
  case (Suc n)
  from Suc.prems(1) obtain l1 sump where
    run: "fold_err (\<lambda>i logp. case sum_p_row r p i of Inl e \<Rightarrow> Inl e
                         | Inr sump \<Rightarrow> Inr (log_p_row r p i sump logp)) [0..<n] l0 = Inr l1"
    and sump: "sum_p_row r p n = Inr sump" and logp: "logp = log_p_row r p n sump l1"
    by (auto simp: fold_err_snoc split: sum.splits)
  show ?case
  proof (cases "i = n")
    case True
    with sump logp log_p_row_at [OF assms(3)] show ?thesis by simp
  next
    case False
    with Suc.prems(2) have i: "i < n" by simp
    have "j + i * (r + 1) \<noteq> j' + n * (r + 1)" if "j' < r + 1" for j'
      using cell_inj2 [OF assms(3) that, of i n] False by blast
    then have "logp (j + i * (r + 1)) = l1 (j + i * (r + 1))"
      unfolding logp by (intro log_p_row_other) auto
    with Suc.IH [OF run i] show ?thesis by simp
  qed
qed

lemma log_params_cell:
  assumes "log_params m r p = Inr logp" "i < m" "j < r + 1"
  shows "\<exists>sump. sum_p_row r p i = Inr sump \<and> logp (j + i * (r + 1)) = dlog (ddiv (p (j + i * (r + 1))) sump)"
  using log_params_loop [OF assms(1) [unfolded log_params_def] assms(2,3)] .

lemma zero_row_at:
  "i < m \<Longrightarrow> zero_row m r a pi' logp k pem (i + k * m) =
     dlog (dadd (dmul pi' (dexp (dmul a (logp (0 + i * (r + 1)))))) (dsub (Fin 1) pi'))"
  unfolding zero_row_def
  using fold_write_at [where h = "\<lambda>i. i + k * m" and n = m and i = i and R = pem
      and G = "\<lambda>i v. dlog (dadd (dmul pi' (dexp (dmul a (logp (0 + i * (r + 1)))))) (dsub (Fin 1) pi'))"]
  by (simp add: inj_on_def)

lemma zinm_loop_row:
  assumes "fold_err (zinm_row lgamma m r y a pi' logp index out cct) [0..<n] pem = Inr pem'" "k < n"
  shows "\<exists>pemk pemk1. zinm_row lgamma m r y a pi' logp index out cct k pemk = Inr pemk1
           \<and> (\<forall>i<m. pem' (i + k * m) = pemk1 (i + k * m))"
  using assms
proof (induction n arbitrary: pem')
  case 0
  then show ?case by simp
next
  case (Suc n)
  from Suc.prems(1) obtain pem1 where
    run: "fold_err (zinm_row lgamma m r y a pi' logp index out cct) [0..<n] pem = Inr pem1"
    and step: "zinm_row lgamma m r y a pi' logp index out cct n pem1 = Inr pem'"
    by (auto simp: fold_err_snoc split: sum.splits)
  show ?case
  proof (cases "k = n")
    case True
    with step show ?thesis by blast
  next
    case False
    with Suc.prems(2) have k: "k < n" by simp
    from Suc.IH [OF run k] obtain pemk pemk1 where
      a: "zinm_row lgamma m r y a pi' logp index out cct k pemk = Inr pemk1"
      and b: "\<And>i. i < m \<Longrightarrow> pem1 (i + k * m) = pemk1 (i + k * m)" by blast
    have "pem' (i + k * m) = pem1 (i + k * m)" if "i < m" for i
      using zinm_row_frame [OF step, of "i + k * m"] cell_below [OF that k] by simp
    with a b show ?thesis by auto
  qed
qed

lemma all_zero_not_invalid: "is_all_zero y k r \<Longrightarrow> \<not> is_invalid y k r"
  by (auto simp: is_all_zero_def is_invalid_def list_all_iff list_ex_iff)

lemma zero_term:
  assumes "0 < \<alpha>" "0 \<le> x"
  shows "dlog (dadd (dmul (Fin \<pi>) (dexp (dmul (Fin \<alpha>) (dlog (Fin x))))) (dsub (Fin 1) (Fin \<pi>)))
     = zero_inflated_log \<pi> x \<alpha>"
proof (cases "x = 0")
  case True
  with assms(1) show ?thesis
    by (simp add: zero_inflated_log_def inf_of_sign_def dsub_def)
next
  case False
  with assms(2) have "0 < x" by simp
  then show ?thesis
    by (simp add: zero_inflated_log_def dsub_def powr_def)
qed

lemma dadd_zero_right [simp]: "dadd x (Fin 0) = x"
  by (cases x) simp_all

lemma all_zero_cells: "is_all_zero y k r \<Longrightarrow> j < r \<Longrightarrow> y (j + k * r) = 0"
  by (auto simp: is_all_zero_def list_all_iff)

lemma c_term_zero_row:
  assumes "is_all_zero y k r" "lgamma (Fin 1) = Fin 0" "lgamma (Fin \<alpha>) = Fin g"
  shows "c_term lgamma r y (Fin \<alpha>) k = Fin 0"
proof -
  have "fold (\<lambda>j (s, c). let term = y (j + k * r)
                             in (dadd s (of_i term), dsub c (lgamma (of_i (term + 1)))))
             [0..<r] (Fin \<alpha>, dneg (lgamma (Fin \<alpha>))) = (Fin \<alpha>, dneg (lgamma (Fin \<alpha>)))"
  proof (rule fold_inv [where I = "\<lambda>s. s = (Fin \<alpha>, dneg (lgamma (Fin \<alpha>)))"])
    fix j s
    assume "j \<in> set [0..<r]" "s = (Fin \<alpha>, dneg (lgamma (Fin \<alpha>)))"
    then show "(\<lambda>(s, c). let term = y (j + k * r)
                             in (dadd s (of_i term), dsub c (lgamma (of_i (term + 1))))) s
        = (Fin \<alpha>, dneg (lgamma (Fin \<alpha>)))"
      using all_zero_cells [OF assms(1), of j] assms(2,3)
      by (simp add: of_i_def dsub_def)
  qed simp
  then show ?thesis
    using assms(3) by (simp add: c_term_def)
qed

lemma add_c_term_at: "i < m \<Longrightarrow> add_c_term m k c pem (i + k * m) = dadd (pem (i + k * m)) c"
  unfolding add_c_term_def
  using fold_write_at [where h = "\<lambda>i. i + k * m" and n = m and i = i and R = pem
      and G = "\<lambda>i v. dadd v c"]
  by (simp add: inj_on_def)

lemma to_linear_at:
  assumes "i < m"
  shows "to_linear m k out pem (i + k * m) =
     (if dgt (dsum m (\<lambda>i. dexp (pem (i + k * m)))) (Fin 0) \<or> out = lin_space
      then dexp (pem (i + k * m)) else pem (i + k * m))"
  unfolding to_linear_def weigh_cells [where g = "\<lambda>i. dexp (pem (i + k * m))"] prod.case
  using assms by (simp add: memcpy_def)


text \<open>
  C9. For a first-occurrence row of zeros and every state \<open>i\<close>, the log emission
  that the evaluator computes is \<open>log(pi \<cdot> p0^a + (1 - pi))\<close>, where \<open>p0\<close> is
  \<open>P[i,0]\<close> divided by the sum \<open>s\<close> of row \<open>i\<close> of \<open>P\<close>, that is \<open>P[i,0]\<close>
  itself when the row sums to 1. It is what \<open>pem\<close> holds in log space; in linear
  space \<open>pem\<close> holds its exponential, and with the default output type one or the
  other. The dispersion \<open>a\<close> is positive. When the constant terms are asked for
  they cancel on a row of zeros, given that \<open>lgamma(1) = 0\<close> and \<open>lgamma(a)\<close> is
  finite.
\<close>

theorem zinm_prob_zero_row:
  assumes run: "zinm_prob mem_ok lgamma jahmm index otype pem = Inr pem'"
    and k: "k < n_obs (hmm_ChIP jahmm)" "\<not> index k < int k"
       "is_all_zero (chip_y (hmm_ChIP jahmm)) k (chip_r (hmm_ChIP jahmm))"
    and i: "i < hmm_m jahmm"
    and a: "hmm_a jahmm = Fin \<alpha>" "0 < \<alpha>" and pi: "hmm_pi jahmm = Fin \<pi>"
    and s: "dsum (chip_r (hmm_ChIP jahmm) + 1) (\<lambda>j. hmm_p jahmm (j + i * (chip_r (hmm_ChIP jahmm) + 1))) = Fin s"
       "0 < s"
    and lg: "drop_bit 3 otype AND 1 = 1 \<Longrightarrow> lgamma (Fin 1) = Fin 0 \<and> (\<exists>g. lgamma (Fin \<alpha>) = Fin g)"
  shows "(otype AND 3 = 1 \<longrightarrow>
            pem' (i + k * hmm_m jahmm) =
              zero_inflated_log \<pi> (re (hmm_p jahmm (0 + i * (chip_r (hmm_ChIP jahmm) + 1))) / s) \<alpha>)
       \<and> (otype AND 3 = 2 \<longrightarrow>
            pem' (i + k * hmm_m jahmm) =
              dexp (zero_inflated_log \<pi> (re (hmm_p jahmm (0 + i * (chip_r (hmm_ChIP jahmm) + 1))) / s) \<alpha>))
       \<and> (otype AND 3 = 0 \<longrightarrow>
            pem' (i + k * hmm_m jahmm) =
              zero_inflated_log \<pi> (re (hmm_p jahmm (0 + i * (chip_r (hmm_ChIP jahmm) + 1))) / s) \<alpha>
          \<or> pem' (i + k * hmm_m jahmm) =
              dexp (zero_inflated_log \<pi> (re (hmm_p jahmm (0 + i * (chip_r (hmm_ChIP jahmm) + 1))) / s) \<alpha>))
       \<and> (s = 1 \<longrightarrow>
            zero_inflated_log \<pi> (re (hmm_p jahmm (0 + i * (chip_r (hmm_ChIP jahmm) + 1))) / s) \<alpha> =
            zero_inflated_log \<pi> (re (hmm_p jahmm (0 + i * (chip_r (hmm_ChIP jahmm) + 1)))) \<alpha>)"
proof -
  define m where "m = hmm_m jahmm"
  define r where "r = chip_r (hmm_ChIP jahmm)"
  define y where "y = chip_y (hmm_ChIP jahmm)"
  define p where "p = hmm_p jahmm"
  define cct where "cct \<longleftrightarrow> drop_bit 3 otype AND 1 = 1"
  from run obtain out logp where
    out: "output_type_of otype = Inr out"
    and logp: "log_params m r p = Inr logp"
    and loop: "fold_err (zinm_row lgamma m r y (Fin \<alpha>) (Fin \<pi>) logp index out cct)
        [0..<n_obs (hmm_ChIP jahmm)] pem = Inr pem'"
    by (auto simp: zinm_prob_def Let_def m_def r_def y_def p_def cct_def a pi split: sum.splits if_splits)
  from zinm_loop_row [OF loop k(1)] obtain pemk pemk1 where
    step: "zinm_row lgamma m r y (Fin \<alpha>) (Fin \<pi>) logp index out cct k pemk = Inr pemk1"
    and fin: "\<And>i. i < m \<Longrightarrow> pem' (i + k * m) = pemk1 (i + k * m)" by blast
  define pem1 where "pem1 = zero_row m r (Fin \<alpha>) (Fin \<pi>) logp k pemk"
  define pem2 where "pem2 = (if cct then add_c_term m k (c_term lgamma r y (Fin \<alpha>) k) pem1 else pem1)"
  from step k(2,3) all_zero_not_invalid [OF k(3)]
  have pemk1: "pemk1 = (if out = log_space then pem2 else to_linear m k out pem2)"
    by (auto simp: zinm_row_def y_def r_def pem1_def pem2_def Let_def split: if_splits)
  from log_params_cell [OF logp i [folded m_def], of 0] obtain sump where
    sump: "sum_p_row r p i = Inr sump" and l0: "logp (0 + i * (r + 1)) = dlog (ddiv (p (0 + i * (r + 1))) sump)"
    by auto
  have s': "dsum (r + 1) (\<lambda>j. p (j + i * (r + 1))) = Fin s"
    using s(1) unfolding r_def p_def .
  have z: "0 < r + 1" by simp
  from sum_p_row_result(1) [OF sump] s' have sv: "sump = Fin s" by simp
  from sum_p_row_result(2) [OF sump z] have nn: "\<not> dlt (p (0 + i * (r + 1))) (Fin 0)" .
  from dsum_Fin_cells(1) [OF s' z] have pf: "p (0 + i * (r + 1)) = Fin (re (p (0 + i * (r + 1))))" .
  define P0 where "P0 = re (p (0 + i * (r + 1)))"
  define L where "L = zero_inflated_log \<pi> (P0 / s) \<alpha>"
  from nn pf have P0: "0 \<le> P0" unfolding P0_def by (metis dlt.simps(1) not_le)
  have l0': "logp (0 + i * (r + 1)) = dlog (Fin (P0 / s))"
    using l0 pf s(2) unfolding sv P0_def by (metis ddiv.simps(1) less_irrefl)
  have x: "0 \<le> P0 / s" using P0 s(2) by simp
  have "pem1 (i + k * m) = dlog (dadd (dmul (Fin \<pi>) (dexp (dmul (Fin \<alpha>) (logp (0 + i * (r + 1))))))
      (dsub (Fin 1) (Fin \<pi>)))"
    unfolding pem1_def by (rule zero_row_at [OF i [folded m_def]])
  also have "\<dots> = L"
    unfolding l0' L_def by (rule zero_term [OF a(2) x])
  finally have c1: "pem1 (i + k * m) = L" .
  have c2: "pem2 (i + k * m) = L"
  proof (cases cct)
    case True
    with lg obtain g where "lgamma (Fin 1) = Fin 0" "lgamma (Fin \<alpha>) = Fin g"
      by (auto simp: cct_def)
    from c_term_zero_row [OF k(3) [folded y_def r_def] this]
    have "c_term lgamma r y (Fin \<alpha>) k = Fin 0" .
    with True c1 show ?thesis
      by (simp add: pem2_def add_c_term_at [OF i [folded m_def]])
  next
    case False
    with c1 show ?thesis by (simp add: pem2_def)
  qed
  have fin': "pem' (i + k * m) = pemk1 (i + k * m)"
    by (rule fin [OF i [folded m_def]])
  have log: "pem' (i + k * m) = L" if "out = log_space"
    using that c2 fin' by (simp add: pemk1)
  have lin: "pem' (i + k * m) = dexp L" if "out = lin_space"
    using that c2 fin' by (simp add: pemk1 to_linear_at [OF i [folded m_def]])
  have dep: "pem' (i + k * m) = L \<or> pem' (i + k * m) = dexp L" if "out = depends"
    using that c2 fin' by (simp add: pemk1 to_linear_at [OF i [folded m_def]])
  have o1: "out = log_space" if "otype AND 3 = 1"
    using out that by (simp add: output_type_of_def)
  have o2: "out = lin_space" if "otype AND 3 = 2"
    using out that by (simp add: output_type_of_def)
  have o0: "out = depends" if "otype AND 3 = 0"
    using out that by (simp add: output_type_of_def)
  show ?thesis
    using log [OF o1] lin [OF o2] dep [OF o0]
    unfolding L_def P0_def p_def r_def m_def by simp
qed

theorem zinm_prob_zero_row_witness:
  "5 AND 3 = (1::int) \<and> drop_bit 3 5 AND 1 \<noteq> (1::int)
   \<and> 2 < n_obs (hmm_ChIP scenario_A) \<and> \<not> arr_of 0 [0, 0, 2, 3] 2 < int 2
   \<and> is_all_zero (chip_y (hmm_ChIP scenario_A)) 2 (chip_r (hmm_ChIP scenario_A))
   \<and> 0 < hmm_m scenario_A \<and> hmm_a scenario_A = Fin 2 \<and> (0::real) < 2 \<and> hmm_pi scenario_A = Fin (1/2)
   \<and> dsum (chip_r (hmm_ChIP scenario_A) + 1)
        (\<lambda>j. hmm_p scenario_A (j + 0 * (chip_r (hmm_ChIP scenario_A) + 1))) = Fin 1
   \<and> (case zinm_prob True (\<lambda>_. Fin 0) scenario_A (arr_of 0 [0, 0, 2, 3]) 5 (\<lambda>_. NaN) of
         Inl e \<Rightarrow> False
       | Inr pem' \<Rightarrow> pem' (0 + 2 * 2) = zero_inflated_log (1/2) (1/2) 2)"
proof -
  obtain pem' where run: "zinm_prob True (\<lambda>_. Fin 0) scenario_A (arr_of 0 [0, 0, 2, 3]) 5 (\<lambda>_. NaN) = Inr pem'"
    using scenario_A_runs by blast
  have mode: "5 AND 3 = (1::int)" "drop_bit 3 5 AND 1 \<noteq> (1::int)" by simp_all
  have lg: "drop_bit 3 5 AND 1 = (1::int) \<Longrightarrow>
      (\<lambda>_. Fin 0) (Fin 1) = Fin 0 \<and> (\<exists>g. (\<lambda>_. Fin 0) (Fin 2) = Fin g)"
    by simp
  have k: "2 < n_obs (hmm_ChIP scenario_A)" "\<not> arr_of 0 [0, 0, 2, 3] 2 < int 2"
      "is_all_zero (chip_y (hmm_ChIP scenario_A)) 2 (chip_r (hmm_ChIP scenario_A))"
    by (simp_all add: scenario_A_def n_obs_def arr_of_def is_all_zero_def upt_rec numeral_2_eq_2)
  have i: "0 < hmm_m scenario_A" by (simp add: scenario_A_def)
  have a: "hmm_a scenario_A = Fin 2" "(0::real) < 2" and pi: "hmm_pi scenario_A = Fin (1/2)"
    by (simp_all add: scenario_A_def)
  have s: "dsum (chip_r (hmm_ChIP scenario_A) + 1)
        (\<lambda>j. hmm_p scenario_A (j + 0 * (chip_r (hmm_ChIP scenario_A) + 1))) = Fin 1" "(0::real) < 1"
    by (simp_all add: scenario_A_def arr_of_def dsum_def upt_rec numeral_2_eq_2)
  have m: "hmm_m scenario_A = 2" and p0: "re (hmm_p scenario_A (0 + 0 * (chip_r (hmm_ChIP scenario_A) + 1))) = 1/2"
    by (simp_all add: scenario_A_def arr_of_def)
  from zinm_prob_zero_row [OF run k i a pi s lg]
  have "pem' (0 + 2 * 2) = zero_inflated_log (1/2) (1/2) 2"
    unfolding m p0 using mode(1) by simp
  with mode k i a pi s(1) show ?thesis unfolding run by simp
qed

subsection \<open>The emission update of the trainer\<close>

lemma write_newp_tracks:
  assumes "1 \<le> j" "j < r"
  shows "write_newp r a pi' R p0 A B C D ystar i newp ((j + 1) + i * (r + 1)) =
     ddiv (ystar j) (bw_normconst a pi' p0 A B C D)"
  unfolding write_newp_def Let_def
  using fold_write_at_list [where xs = "[1..<r]" and h = "\<lambda>j. (j + 1) + i * (r + 1)" and i = j
      and G = "\<lambda>j v. ddiv (ystar j) (bw_normconst a pi' p0 A B C D)"] assms
  by (simp add: inj_on_def)

lemma write_newp_first:
  "write_newp r a pi' R p0 A B C D ystar i newp (0 + i * (r + 1)) = p0"
  unfolding write_newp_def Let_def
  using fold_write_other_list [where xs = "[1..<r]" and h = "\<lambda>j. (j + 1) + i * (r + 1)"
      and c = "0 + i * (r + 1)" and G = "\<lambda>j v. ddiv (ystar j) (bw_normconst a pi' p0 A B C D)"]
  by simp

lemma write_newp_second:
  "write_newp r a pi' R p0 A B C D ystar i newp (1 + i * (r + 1)) = dmul p0 R"
  unfolding write_newp_def Let_def
  using fold_write_other_list [where xs = "[1..<r]" and h = "\<lambda>j. (j + 1) + i * (r + 1)"
      and c = "1 + i * (r + 1)" and G = "\<lambda>j v. ddiv (ystar j) (bw_normconst a pi' p0 A B C D)"]
  by simp

lemma write_newp_other_row:
  assumes "i' \<noteq> i" "j' < r + 1" "0 < r"
  shows "write_newp r a pi' R p0 A B C D ystar i newp (j' + i' * (r + 1)) = newp (j' + i' * (r + 1))"
proof -
  have ne: "j' + i' * (r + 1) \<noteq> j + i * (r + 1)" if "j < r + 1" for j
    using cell_inj2 [OF assms(2) that, of i' i] assms(1) by blast
  have "j' + i' * (r + 1) \<noteq> (j + 1) + i * (r + 1)" if "j \<in> set [1..<r]" for j
    using ne [of "j + 1"] that by simp
  then have "fold (\<lambda>j newp. newp((j + 1) + i * (r + 1) := ddiv (ystar j) (bw_normconst a pi' p0 A B C D)))
      [1..<r] X (j' + i' * (r + 1)) = X (j' + i' * (r + 1))" for X
    by (intro fold_write_other_list [where h = "\<lambda>j. (j + 1) + i * (r + 1)"
      and G = "\<lambda>j v. ddiv (ystar j) (bw_normconst a pi' p0 A B C D)"]) auto
  then show ?thesis
    unfolding write_newp_def Let_def using ne [of 0] ne [of 1] assms(3) by auto
qed

lemma bw_state_result:
  assumes "bw_state m r n y index i0 a pi' R phi i newp = Some (Inr newp')"
    "bw_sums m r n y index i0 phi i = (A, B, D, ystar)"
  shows "\<exists>p0. newp' = write_newp r a pi' R p0 A B (dadd (Fin 1) R) D ystar i newp"
  using assms by (auto simp: bw_state_def Let_def split: option.splits prod.splits if_splits)

lemma bw_states_snoc:
  "bw_states m r n y index i0 a pi' R phi (xs @ [i]) newp =
     (case bw_states m r n y index i0 a pi' R phi xs newp of
        None \<Rightarrow> None
      | Some (Inl e) \<Rightarrow> Some (Inl e)
      | Some (Inr newp') \<Rightarrow>
          (case bw_state m r n y index i0 a pi' R phi i newp' of
             None \<Rightarrow> None | Some (Inl e) \<Rightarrow> Some (Inl e) | Some (Inr newp'') \<Rightarrow> Some (Inr newp'')))"
  by (induction xs arbitrary: newp) (auto split: option.splits sum.splits)

lemma bw_states_loop:
  assumes "bw_states m r n y index i0 a pi' R phi [0..<k] newp = Some (Inr newp')"
    "i < k" "1 \<le> j" "j < r" "bw_sums m r n y index i0 phi i = (A, B, D, ystar)"
  shows "newp' (1 + i * (r + 1)) = dmul (newp' (0 + i * (r + 1))) R
       \<and> newp' ((j + 1) + i * (r + 1)) =
           ddiv (ystar j) (bw_normconst a pi' (newp' (0 + i * (r + 1))) A B (dadd (Fin 1) R) D)"
  using assms(1,2)
proof (induction k arbitrary: newp')
  case 0
  then show ?case by simp
next
  case (Suc k)
  from Suc.prems(1) obtain np where
    run: "bw_states m r n y index i0 a pi' R phi [0..<k] newp = Some (Inr np)"
    and step: "bw_state m r n y index i0 a pi' R phi k np = Some (Inr newp')"
    by (auto simp: bw_states_snoc split: option.splits sum.splits)
  show ?case
  proof (cases "i = k")
    case True
    from bw_state_result [OF step [folded True] assms(5)] obtain p0 where
      "newp' = write_newp r a pi' R p0 A B (dadd (Fin 1) R) D ystar i np" by blast
    then show ?thesis
      by (simp only: write_newp_first write_newp_second write_newp_tracks [OF assms(3,4)])
  next
    case False
    with Suc.prems(2) have i: "i < k" by simp
    obtain A' B' D' ystar' where "bw_sums m r n y index i0 phi k = (A', B', D', ystar')"
      by (metis prod_cases4)
    from bw_state_result [OF step this] obtain p0 where
      w: "newp' = write_newp r a pi' R p0 A' B' (dadd (Fin 1) R) D' ystar' k np" by blast
    have "newp' (j' + i * (r + 1)) = np (j' + i * (r + 1))" if "j' < r + 1" for j'
      unfolding w using False that assms(3,4) by (intro write_newp_other_row) auto
    from this [of 0] this [of 1] this [of "j + 1"] assms(3,4) Suc.IH [OF run i]
    show ?thesis by simp
  qed
qed


lemma ddiv_ddiv_finite:
  assumes "x \<noteq> 0" "c \<noteq> 0"
  shows "ddiv (Fin u) (ddiv (Fin x) (Fin c)) = Fin (u * c / x)"
  using assms by simp

lemmas bw_eval = bw_states.simps bw_state_def bw_sums_def sum_ystar_def bracket_def grow.simps shrink.simps
  newton_def newton_step_def write_newp_def bw_normconst_def bw_terms_def eval_bw_f_def eval_bw_dfdp0_def
  sq_def JAHMM_MAXITER_def TOLERANCE_def DBL_MAX_def DBL_TRUE_MIN_def
  memset0_def arr_of_def of_i_def dsub_def dgt_def upt_rec numeral_2_eq_2 numeral_3_eq_3 Let_def

lemma tracks_sums:
  "bw_sums 1 3 1 tracks_y tracks_index (- 1) tracks_phi 0 =
     (Fin 1, Fin 0, Fin 1, snd (snd (snd (bw_sums 1 3 1 tracks_y tracks_index (- 1) tracks_phi 0))))"
  by (simp add: bw_eval tracks_y_def tracks_index_def tracks_phi_def)

lemma tracks_run:
  "\<exists>newp'. bw_states 1 3 1 tracks_y tracks_index (- 1) (Fin 1) (Fin 1) (Fin 1) tracks_phi [0..<1] (\<lambda>_. NaN)
      = Some (Inr newp')"
  by (simp add: bw_eval tracks_y_def tracks_index_def tracks_phi_def)

text \<open>
  C2. The claim: for every state \<open>i\<close> and every \<open>j \<ge> 2\<close>,
  \<open>P_new[i,j] = ystar_j / ((D + a\<cdot>A)/p0 + \<dots>) \<cdot> 1/C\<close>. The source divides
  \<open>ystar[j]\<close> by \<open>normconst = (term1 + term2) / C\<close>, which multiplies by \<open>C\<close>,
  and stores the result in column \<open>j + 1\<close>. With one state, three tracks, the
  observation \<open>(1, 2, 3)\<close> with posterior 1, \<open>a = 1\<close>, \<open>pi = 1\<close> and \<open>R = 1\<close>:
  \<open>A = 1\<close>, \<open>B = 0\<close>, \<open>D = 1\<close>, \<open>ystar = (2, 3)\<close>, \<open>C = 2\<close>, the root is
  \<open>p0 = 1/7\<close>, and \<open>P_new[0,2] = 2/7\<close>. The claimed value is \<open>3/28\<close>, and
  \<open>1/14\<close> if \<open>ystar\<close> is read one column lower. (The new row
  \<open>1/7, 1/7, 2/7, 3/7\<close> sums to 1, which the claimed values would not.)
\<close>

theorem bw_states_claimed_newp_counterexample:
  "bw_states 1 3 1 tracks_y tracks_index (- 1) (Fin 1) (Fin 1) (Fin 1) tracks_phi [0..<1] (\<lambda>_. NaN) \<noteq> None
   \<and> \<not> isl (the (bw_states 1 3 1 tracks_y tracks_index (- 1) (Fin 1) (Fin 1) (Fin 1) tracks_phi [0..<1] (\<lambda>_. NaN)))
   \<and> projr (the (bw_states 1 3 1 tracks_y tracks_index (- 1) (Fin 1) (Fin 1) (Fin 1) tracks_phi [0..<1] (\<lambda>_. NaN)))
        (0 + 0 * 4) = Fin (1/7)
   \<and> projr (the (bw_states 1 3 1 tracks_y tracks_index (- 1) (Fin 1) (Fin 1) (Fin 1) tracks_phi [0..<1] (\<lambda>_. NaN)))
        (2 + 0 * 4) = Fin (2/7)
   \<and> fst (bw_sums 1 3 1 tracks_y tracks_index (- 1) tracks_phi 0) = Fin 1
   \<and> fst (snd (bw_sums 1 3 1 tracks_y tracks_index (- 1) tracks_phi 0)) = Fin 0
   \<and> fst (snd (snd (bw_sums 1 3 1 tracks_y tracks_index (- 1) tracks_phi 0))) = Fin 1
   \<and> snd (snd (snd (bw_sums 1 3 1 tracks_y tracks_index (- 1) tracks_phi 0))) 1 = Fin 2
   \<and> snd (snd (snd (bw_sums 1 3 1 tracks_y tracks_index (- 1) tracks_phi 0))) 2 = Fin 3
   \<and> claimed_newp (Fin 3) (Fin 1) (Fin 1) (Fin (1/7)) (Fin 1) (Fin 0) (dadd (Fin 1) (Fin 1)) (Fin 1) = Fin (3/28)
   \<and> claimed_newp (Fin 2) (Fin 1) (Fin 1) (Fin (1/7)) (Fin 1) (Fin 0) (dadd (Fin 1) (Fin 1)) (Fin 1) = Fin (1/14)"
  by (simp add: bw_eval claimed_newp_def tracks_y_def tracks_index_def tracks_phi_def)

text \<open>
  C2 as amended: for every state \<open>i\<close> and every track \<open>j\<close> from 1 to \<open>r - 1\<close>,
  \<open>P_new[i, j+1] = ystar_j / (((D + a\<cdot>A)/p0 + \<dots>) / C)\<close>, that is
  \<open>ystar_j \<cdot> C\<close> over the sum of the two terms when these are finite and not zero,
  where \<open>C = 1 + R\<close> and \<open>p0 = P_new[i,0]\<close> is the root found for state \<open>i\<close>; and
  \<open>P_new[i,1] = p0 \<cdot> R\<close>.
\<close>

theorem bw_states_track_parameters:
  assumes "bw_states m r n y index i0 a pi' R phi [0..<m] newp = Some (Inr newp')"
    and "i < m" and "1 \<le> j" and "j < r"
    and "bw_sums m r n y index i0 phi i = (A, B, D, ystar)"
  shows "newp' (1 + i * (r + 1)) = dmul (newp' (0 + i * (r + 1))) R
     \<and> newp' ((j + 1) + i * (r + 1)) =
         ddiv (ystar j) (ddiv (bw_terms a pi' (newp' (0 + i * (r + 1))) A B D) (dadd (Fin 1) R))
     \<and> (\<forall>u x c. ystar j = Fin u \<and> bw_terms a pi' (newp' (0 + i * (r + 1))) A B D = Fin x
            \<and> dadd (Fin 1) R = Fin c \<and> x \<noteq> 0 \<and> c \<noteq> 0
          \<longrightarrow> newp' ((j + 1) + i * (r + 1)) = Fin (u * c / x))"
  using bw_states_loop [OF assms] by (auto simp: bw_normconst_def)

theorem bw_states_track_parameters_witness:
  "(0::nat) < 1 \<and> (1::nat) \<le> 1 \<and> (1::nat) < 3
   \<and> (\<exists>newp'. bw_states 1 3 1 tracks_y tracks_index (- 1) (Fin 1) (Fin 1) (Fin 1) tracks_phi [0..<1] (\<lambda>_. NaN)
          = Some (Inr newp')
        \<and> newp' (0 + 0 * (3 + 1)) = Fin (1/7)
        \<and> newp' ((1 + 1) + 0 * (3 + 1)) = Fin (2 * 2 / 14))"
proof -
  obtain newp' where run: "bw_states 1 3 1 tracks_y tracks_index (- 1) (Fin 1) (Fin 1) (Fin 1) tracks_phi
      [0..<1] (\<lambda>_. NaN) = Some (Inr newp')"
    using tracks_run by blast
  have p0: "newp' (0 + 0 * (3 + 1)) = Fin (1/7)"
    using run by (simp add: bw_eval tracks_y_def tracks_index_def tracks_phi_def) auto
  have y1: "snd (snd (snd (bw_sums 1 3 1 tracks_y tracks_index (- 1) tracks_phi 0))) 1 = Fin 2"
    by (simp add: bw_eval tracks_y_def tracks_index_def tracks_phi_def)
  have x: "bw_terms (Fin 1) (Fin 1) (Fin (1/7)) (Fin 1) (Fin 0) (Fin 1) = Fin 14"
    by (simp add: bw_terms_def dsub_def)
  from bw_states_track_parameters [OF run _ _ _ tracks_sums, of 1] y1 x
  have "newp' ((1 + 1) + 0 * (3 + 1)) = Fin (2 * 2 / 14)"
    unfolding p0 by simp
  with run p0 show ?thesis by simp
qed

subsection \<open>The trainer gives up\<close>

lemma bw_cycles_completed:
  "bw_completed c mem_ok lgamma index i0 R prob jahmm bufs = Some (jahmm_c, bufs_c) \<Longrightarrow>
     bw_cycles (c + k) mem_ok lgamma index i0 R prob jahmm bufs =
     bw_cycles k mem_ok lgamma index i0 R prob jahmm_c bufs_c"
proof (induction c arbitrary: jahmm bufs)
  case 0
  then show ?case by simp
next
  case (Suc c)
  from Suc.prems obtain j b where
    cyc: "bw_cycle mem_ok lgamma index i0 R prob jahmm bufs = Some (Continue j b)"
    and rest: "bw_completed c mem_ok lgamma index i0 R prob j b = Some (jahmm_c, bufs_c)"
    by (auto split: option.splits bw_outcome.splits)
  from Suc.IH [OF rest] cyc show ?case by simp
qed

lemma bw_states_append:
  "bw_states m r n y index i0 a pi' R phi (xs @ ys) newp =
     (case bw_states m r n y index i0 a pi' R phi xs newp of
        None \<Rightarrow> None
      | Some (Inl e) \<Rightarrow> Some (Inl e)
      | Some (Inr newp') \<Rightarrow> bw_states m r n y index i0 a pi' R phi ys newp')"
  by (induction xs arbitrary: newp) (auto split: option.splits sum.splits)

lemma bw_state_fails:
  assumes "bw_sums m r n y index i0 phi i = (A, B, D, ystar)"
    and "bracket (\<lambda>p0. eval_bw_f a pi' p0 A B (dadd (Fin 1) R) D (sum_ystar r ystar)) = Some (p0, p0_lo, p0_hi)"
    and "dgt p0_lo (Fin 1) \<or> dlt p0_hi (Fin 0)"
  shows "bw_state m r n y index i0 a pi' R phi i newp = Some (Inl CannotComplete)"
  using assms by (simp add: bw_state_def Let_def)

lemma bw_states_fail:
  assumes i: "i < m"
    and before: "bw_states m r n y index i0 a pi' R phi [0..<i] newp = Some (Inr newp_i)"
    and fails: "bw_state m r n y index i0 a pi' R phi i newp_i = Some (Inl CannotComplete)"
  shows "bw_states m r n y index i0 a pi' R phi [0..<m] newp = Some (Inl CannotComplete)"
proof -
  from i have "[0..<m] = [0..<i] @ i # [Suc i..<m]"
    using upt_add_eq_append [of 0 i "m - i"] upt_conv_Cons [of i m] by simp
  then show ?thesis
    using before fails by (simp add: bw_states_append)
qed

lemma e_step_mem_ok:
  "e_step mem_ok lgamma index prob jahmm pem phi tr = Inr x \<Longrightarrow> mem_ok"
  by (auto simp: e_step_def block_fwdb_def Let_def split: if_splits)

lemma bw_zinm_gives_up:
  assumes "mem_ok"
    and "bw_cycles MAXITER mem_ok lgamma index i0 (ddiv (hmm_p jahmm 1) (hmm_p jahmm 0))
      (fold (\<lambda>i prob. prob(i := ddiv (Fin 1) (of_i (int (hmm_m jahmm))))) [0..<hmm_m jahmm] (\<lambda>_. NaN))
      jahmm (\<lambda>_. NaN, \<lambda>_. NaN, \<lambda>_. NaN, \<lambda>_. NaN)
      = Some (Some e, jahmm', bufs)"
  shows "bw_zinm mem_ok lgamma index i0 jahmm = Some (Some e, jahmm')"
  unfolding bw_zinm_def Let_def assms(2) using assms(1) by simp

lemma bw_cycle_aborts:
  assumes e: "e_step mem_ok lgamma index prob jahmm pem phi tr = Inr (loglik, pem', phi', tr')"
    and st: "bw_states (hmm_m jahmm) (chip_r (hmm_ChIP jahmm)) (n_obs (hmm_ChIP jahmm))
              (chip_y (hmm_ChIP jahmm)) index i0 (hmm_a jahmm) (hmm_pi jahmm) R phi'
              [0..<hmm_m jahmm] newp = Some (Inl err)"
  shows "bw_cycle mem_ok lgamma index i0 R prob jahmm (pem, phi, tr, newp) =
           Some (Aborted (jahmm\<lparr>hmm_l := loglik, hmm_Q := update_trans (hmm_m jahmm) (hmm_Q jahmm) tr'\<rparr>))"
  unfolding bw_cycle_def Let_def prod.case e sum.case st option.case ..

lemma bw_cycles_abort_at:
  assumes c: "c < MAXITER"
    and start: "bw_completed c mem_ok lgamma index i0 R prob jahmm bufs = Some (jahmm_c, bufs_c)"
    and cyc: "bw_cycle mem_ok lgamma index i0 R prob jahmm_c bufs_c = Some (Aborted jahmm1)"
  shows "bw_cycles MAXITER mem_ok lgamma index i0 R prob jahmm bufs = Some (Some CannotComplete, jahmm1, bufs_c)"
proof -
  from less_imp_Suc_add [OF c] obtain k where "MAXITER = Suc (c + k)" ..
  then have k: "MAXITER = c + Suc k" by (simp only: add_Suc_right)
  have "bw_cycles (c + Suc k) mem_ok lgamma index i0 R prob jahmm bufs
      = bw_cycles (Suc k) mem_ok lgamma index i0 R prob jahmm_c bufs_c"
    by (rule bw_cycles_completed [OF start])
  also have "\<dots> = Some (Some CannotComplete, jahmm1, bufs_c)"
    unfolding bw_cycles.simps cyc by simp
  finally show ?thesis unfolding k .
qed

lemma bw_cycles_first:
  "bw_cycles MAXITER mem_ok lgamma index i0 R prob jahmm bufs =
     (case bw_cycle mem_ok lgamma index i0 R prob jahmm bufs of
        None \<Rightarrow> None
      | Some (Failed e) \<Rightarrow> Some (Some e, jahmm, bufs)
      | Some (Aborted jahmm') \<Rightarrow> Some (Some CannotComplete, jahmm', bufs)
      | Some (Converged jahmm' bufs') \<Rightarrow> Some (None, jahmm', bufs')
      | Some (Continue jahmm' bufs') \<Rightarrow> bw_cycles 499 mem_ok lgamma index i0 R prob jahmm' bufs')"
proof -
  have e: "MAXITER = Suc 499" by (simp add: MAXITER_def)
  show ?thesis unfolding e by (rule bw_cycles.simps(2))
qed

lemmas trainer_eval = bw_zinm_def bw_cycles_first bw_cycle_def e_step_def bw_eval zinm_eval to_linear_def
  block_fwdb_def block_loop.simps fwdb_def fwd_eval bwd_eval add_trans_def shift_def unshift_def
  update_trans_def update_row_def row_sum_def scenario_NA_def scenario_NA_index_def

text \<open>
  C4. The claim: when the root finder fails to bracket \<open>p0\<close> the trainer stops and
  neither \<open>Q\<close> nor \<open>P\<close> is committed, both equal to their values from before the
  failing update, while the log-likelihood is that of the last forward-backward pass.
  The cycle calls \<open>update_trans\<close> on the array of the structure before it updates
  the emissions, and nothing restores it. In the example below the first cycle fails
  for state 0 (the sum \<open>E\<close> counts the stored \<open>-1\<close> of the missing tracks, and the
  bounds found are \<open>p0_lo = 8\<close>, \<open>p0_hi = 16\<close>); the trainer returns with
  \<open>Q[0,0] = 351/380\<close> and \<open>Q[0,1] = 29/380\<close>, which were \<open>9/10\<close> and \<open>1/10\<close>.
\<close>

theorem bw_zinm_abort_counterexample:
  "bw_zinm True (\<lambda>_. Fin 0) scenario_NA_index 0 scenario_NA \<noteq> None
   \<and> fst (the (bw_zinm True (\<lambda>_. Fin 0) scenario_NA_index 0 scenario_NA)) = Some CannotComplete
   \<and> hmm_Q scenario_NA (0 + 0 * 2) = Fin (9/10)
   \<and> hmm_Q (snd (the (bw_zinm True (\<lambda>_. Fin 0) scenario_NA_index 0 scenario_NA))) (0 + 0 * 2) = Fin (351/380)
   \<and> hmm_Q scenario_NA (0 + 1 * 2) = Fin (1/10)
   \<and> hmm_Q (snd (the (bw_zinm True (\<lambda>_. Fin 0) scenario_NA_index 0 scenario_NA))) (0 + 1 * 2) = Fin (29/380)"
  by (simp add: trainer_eval)

text \<open>
  C4 as amended. Let the first \<open>c\<close> cycles of the trainer, started on \<open>jahmm\<close>,
  run to their end and leave the structure \<open>jahmm_c\<close>, with \<open>c < MAXITER\<close>.
  If in the next cycle the forward-backward pass returns \<open>loglik\<close> and the summed
  transitions \<open>tr'\<close>, the emission update goes through for the states before
  \<open>i\<close>, and for state \<open>i\<close> the bounds found for \<open>p0\<close> have \<open>p0_lo > 1\<close> or
  \<open>p0_hi < 0\<close>, then the trainer gives up and leaves the structure as follows:
  \<open>p\<close> is as it was at the start of that cycle (the rows of \<open>newp\<close> are dropped),
  the log-likelihood is \<open>loglik\<close>, the one of that cycle's forward-backward pass,
  and \<open>Q\<close> is already the result of that cycle's transition update; every other
  field is as it was at the start of the cycle.
\<close>

theorem bw_zinm_abort_state:
  assumes R: "R = ddiv (hmm_p jahmm 1) (hmm_p jahmm 0)"
    and prob: "prob = fold (\<lambda>i prob. prob(i := ddiv (Fin 1) (of_i (int (hmm_m jahmm)))))
                        [0..<hmm_m jahmm] (\<lambda>_. NaN)"
    and c: "c < MAXITER"
    and start: "bw_completed c mem_ok lgamma index i0 R prob jahmm
                  (\<lambda>_. NaN, \<lambda>_. NaN, \<lambda>_. NaN, \<lambda>_. NaN) = Some (jahmm_c, pem, phi, tr, newp)"
    and e: "e_step mem_ok lgamma index prob jahmm_c pem phi tr = Inr (loglik, pem', phi', tr')"
    and i: "i < hmm_m jahmm_c"
    and before: "bw_states (hmm_m jahmm_c) (chip_r (hmm_ChIP jahmm_c)) (n_obs (hmm_ChIP jahmm_c))
                   (chip_y (hmm_ChIP jahmm_c)) index i0 (hmm_a jahmm_c) (hmm_pi jahmm_c) R phi'
                   [0..<i] newp = Some (Inr newp_i)"
    and sums: "bw_sums (hmm_m jahmm_c) (chip_r (hmm_ChIP jahmm_c)) (n_obs (hmm_ChIP jahmm_c))
                 (chip_y (hmm_ChIP jahmm_c)) index i0 phi' i = (A, B, D, ystar)"
    and br: "bracket (\<lambda>p0. eval_bw_f (hmm_a jahmm_c) (hmm_pi jahmm_c) p0 A B (dadd (Fin 1) R) D
                             (sum_ystar (chip_r (hmm_ChIP jahmm_c)) ystar)) = Some (p0, p0_lo, p0_hi)"
    and fail: "dgt p0_lo (Fin 1) \<or> dlt p0_hi (Fin 0)"
  shows "bw_zinm mem_ok lgamma index i0 jahmm =
           Some (Some CannotComplete,
                 jahmm_c\<lparr>hmm_l := loglik,
                         hmm_Q := update_trans (hmm_m jahmm_c) (hmm_Q jahmm_c) tr'\<rparr>)"
proof -
  have mem: mem_ok using e by (rule e_step_mem_ok)
  have st: "bw_states (hmm_m jahmm_c) (chip_r (hmm_ChIP jahmm_c)) (n_obs (hmm_ChIP jahmm_c))
              (chip_y (hmm_ChIP jahmm_c)) index i0 (hmm_a jahmm_c) (hmm_pi jahmm_c) R phi'
              [0..<hmm_m jahmm_c] newp = Some (Inl CannotComplete)"
    using i before by (rule bw_states_fail) (rule bw_state_fails [OF sums br fail])
  have "bw_cycles MAXITER mem_ok lgamma index i0 R prob jahmm (\<lambda>_. NaN, \<lambda>_. NaN, \<lambda>_. NaN, \<lambda>_. NaN)
      = Some (Some CannotComplete,
              jahmm_c\<lparr>hmm_l := loglik, hmm_Q := update_trans (hmm_m jahmm_c) (hmm_Q jahmm_c) tr'\<rparr>,
              pem, phi, tr, newp)"
    using c start by (rule bw_cycles_abort_at) (rule bw_cycle_aborts [OF e st])
  then show ?thesis
    unfolding R prob by (rule bw_zinm_gives_up [OF mem])
qed

lemma scenario_NA_bracketing:
  "\<exists>loglik pem' phi' tr' A B D ystar p0.
      e_step True (\<lambda>_. Fin 0) scenario_NA_index
        (fold (\<lambda>i prob. prob(i := ddiv (Fin 1) (of_i (int (hmm_m scenario_NA))))) [0..<hmm_m scenario_NA] (\<lambda>_. NaN))
        scenario_NA (\<lambda>_. NaN) (\<lambda>_. NaN) (\<lambda>_. NaN) = Inr (loglik, pem', phi', tr')
    \<and> bw_sums (hmm_m scenario_NA) (chip_r (hmm_ChIP scenario_NA)) (n_obs (hmm_ChIP scenario_NA))
          (chip_y (hmm_ChIP scenario_NA)) scenario_NA_index 0 phi' 0 = (A, B, D, ystar)
    \<and> bracket (\<lambda>p0. eval_bw_f (hmm_a scenario_NA) (hmm_pi scenario_NA) p0 A B
                   (dadd (Fin 1) (ddiv (hmm_p scenario_NA 1) (hmm_p scenario_NA 0))) D
                   (sum_ystar (chip_r (hmm_ChIP scenario_NA)) ystar)) = Some (p0, Fin 8, Fin 16)"
  by (simp add: trainer_eval)

theorem bw_zinm_abort_state_witness:
  "0 < MAXITER
   \<and> (\<exists>loglik pem' phi' tr' A B D ystar p0.
        e_step True (\<lambda>_. Fin 0) scenario_NA_index
          (fold (\<lambda>i prob. prob(i := ddiv (Fin 1) (of_i (int (hmm_m scenario_NA))))) [0..<hmm_m scenario_NA] (\<lambda>_. NaN))
          scenario_NA (\<lambda>_. NaN) (\<lambda>_. NaN) (\<lambda>_. NaN) = Inr (loglik, pem', phi', tr')
      \<and> bw_sums (hmm_m scenario_NA) (chip_r (hmm_ChIP scenario_NA)) (n_obs (hmm_ChIP scenario_NA))
            (chip_y (hmm_ChIP scenario_NA)) scenario_NA_index 0 phi' 0 = (A, B, D, ystar)
      \<and> bracket (\<lambda>p0. eval_bw_f (hmm_a scenario_NA) (hmm_pi scenario_NA) p0 A B
                     (dadd (Fin 1) (ddiv (hmm_p scenario_NA 1) (hmm_p scenario_NA 0))) D
                     (sum_ystar (chip_r (hmm_ChIP scenario_NA)) ystar)) = Some (p0, Fin 8, Fin 16)
      \<and> dgt (Fin 8) (Fin 1)
      \<and> bw_zinm True (\<lambda>_. Fin 0) scenario_NA_index 0 scenario_NA =
          Some (Some CannotComplete,
                scenario_NA\<lparr>hmm_l := loglik,
                             hmm_Q := update_trans (hmm_m scenario_NA) (hmm_Q scenario_NA) tr'\<rparr>))"
proof -
  define prob where "prob = fold (\<lambda>i prob. prob(i := ddiv (Fin 1) (of_i (int (hmm_m scenario_NA)))))
                        [0..<hmm_m scenario_NA] (\<lambda>_. NaN)"
  define R where "R = ddiv (hmm_p scenario_NA 1) (hmm_p scenario_NA 0)"
  from scenario_NA_bracketing obtain loglik pem' phi' tr' A B D ystar p0 where
    e: "e_step True (\<lambda>_. Fin 0) scenario_NA_index prob scenario_NA (\<lambda>_. NaN) (\<lambda>_. NaN) (\<lambda>_. NaN)
          = Inr (loglik, pem', phi', tr')"
    and sums: "bw_sums (hmm_m scenario_NA) (chip_r (hmm_ChIP scenario_NA)) (n_obs (hmm_ChIP scenario_NA))
          (chip_y (hmm_ChIP scenario_NA)) scenario_NA_index 0 phi' 0 = (A, B, D, ystar)"
    and br: "bracket (\<lambda>p0. eval_bw_f (hmm_a scenario_NA) (hmm_pi scenario_NA) p0 A B (dadd (Fin 1) R) D
                   (sum_ystar (chip_r (hmm_ChIP scenario_NA)) ystar)) = Some (p0, Fin 8, Fin 16)"
    unfolding prob_def R_def by blast
  have c: "0 < MAXITER" by (simp add: MAXITER_def)
  have start: "bw_completed 0 True (\<lambda>_. Fin 0) scenario_NA_index 0 R prob scenario_NA
      (\<lambda>_. NaN, \<lambda>_. NaN, \<lambda>_. NaN, \<lambda>_. NaN) = Some (scenario_NA, \<lambda>_. NaN, \<lambda>_. NaN, \<lambda>_. NaN, \<lambda>_. NaN)"
    by simp
  have i: "0 < hmm_m scenario_NA" by (simp add: scenario_NA_def)
  have before: "bw_states (hmm_m scenario_NA) (chip_r (hmm_ChIP scenario_NA)) (n_obs (hmm_ChIP scenario_NA))
      (chip_y (hmm_ChIP scenario_NA)) scenario_NA_index 0 (hmm_a scenario_NA) (hmm_pi scenario_NA) R phi'
      [0..<0] (\<lambda>_. NaN) = Some (Inr (\<lambda>_. NaN))"
    by simp
  have fail: "dgt (Fin 8) (Fin 1) \<or> dlt (Fin 16) (Fin 0)" by (simp add: dgt_def)
  have "bw_zinm True (\<lambda>_. Fin 0) scenario_NA_index 0 scenario_NA =
          Some (Some CannotComplete,
                scenario_NA\<lparr>hmm_l := loglik,
                             hmm_Q := update_trans (hmm_m scenario_NA) (hmm_Q scenario_NA) tr'\<rparr>)"
    using R_def prob_def c start e i before sums br fail by (rule bw_zinm_abort_state)
  with c e sums br show ?thesis
    unfolding prob_def R_def by (auto simp: dgt_def)
qed
end
